theory Spec2Isabelle
  imports
    Main
    "HOL-Library.Monad_Syntax"
    "HOL-Library.Multiset"
    "HOL-Library.Char_ord"
    "HOL-Library.List_Lexorder"
    "HOL-Library.Signed_Division"
    "HOL-Library.Word"
begin

unbundle bit_operations_syntax

section \<open>C++ values\<close>

text \<open>
  The program is \<^verbatim>\<open>SudokuSpeed.cpp\<close>. A C++ \<^verbatim>\<open>int\<close> is modelled as a HOL
  \<^typ>\<open>int\<close> with the 32-bit range checked wherever the code does arithmetic that could
  leave it; a \<^verbatim>\<open>std::string\<close> is a \<^typ>\<open>string\<close>. Every operation whose behaviour
  C++ leaves undefined (an index out of range, a signed overflow, a zero divisor, a shift
  by a negative or too large amount) returns \<^term>\<open>None\<close>, and \<^term>\<open>None\<close> propagates, so a
  result \<^term>\<open>Some x\<close> says that the run met no undefined behaviour and produced \<open>x\<close>.
\<close>

definition INT_MIN :: int where
  "INT_MIN = - 2147483648"

definition INT_MAX :: int where
  "INT_MAX = 2147483647"

definition int_range :: "int \<Rightarrow> int option" where
  \<comment> \<open>the result of a signed \<^verbatim>\<open>int\<close> operation: undefined when it is not representable\<close>
  "int_range x = (if INT_MIN \<le> x \<and> x \<le> INT_MAX then Some x else None)"

definition cpp_mod :: "int \<Rightarrow> int \<Rightarrow> int option" where
  \<comment> \<open>\<^verbatim>\<open>a % b\<close> on \<^verbatim>\<open>int\<close>: truncating, undefined for a zero divisor and for INT_MIN % -1\<close>
  "cpp_mod a b =
     (if b = 0 \<or> (a = INT_MIN \<and> b = - 1) then None else Some (a smod b))"

definition char_value :: "char \<Rightarrow> int" where
  \<comment> \<open>a \<^verbatim>\<open>char\<close> promoted to \<^verbatim>\<open>int\<close>; \<^verbatim>\<open>char\<close> is taken as signed (as on x86-64), which
      matters only for bytes from 128 on\<close>
  "char_value c = (let v = of_char c in if v < 128 then v else v - 256)"

definition digit_value :: "char \<Rightarrow> int" where
  \<comment> \<open>\<^verbatim>\<open>c - '0'\<close>\<close>
  "digit_value c = char_value c - char_value CHR ''0''"

definition shl1 :: "int \<Rightarrow> int option" where
  \<comment> \<open>\<^verbatim>\<open>1 << d\<close> on \<^verbatim>\<open>int\<close>: only the shifts with a representable, positive result are taken
      as defined\<close>
  "shl1 d = (if 0 \<le> d \<and> d < 31 then Some (push_bit (nat d) 1) else None)"

definition string_at :: "string \<Rightarrow> int \<Rightarrow> char option" where
  \<comment> \<open>\<^verbatim>\<open>s[i]\<close> of a \<^verbatim>\<open>std::string\<close>: the terminating null at \<^verbatim>\<open>i == s.size()\<close>, undefined
      beyond and for a negative index\<close>
  "string_at s i =
     (if 0 \<le> i \<and> i < int (length s) then Some (s ! nat i)
      else if i = int (length s) then Some (CHR 0x00)
      else None)"

definition vector_at :: "'a list \<Rightarrow> nat \<Rightarrow> 'a option" where
  \<comment> \<open>\<^verbatim>\<open>v[i]\<close> of a \<^verbatim>\<open>std::vector\<close>, for a loop index that starts at 0\<close>
  "vector_at v i = (if i < length v then Some (v ! i) else None)"

definition alphabet :: string where
  \<comment> \<open>the symbols the loops \<^verbatim>\<open>for (char d = '0'; d <= '9'; d++)\<close> run through\<close>
  "alphabet = ''0123456789''"

section \<open>Helper functions\<close>

subsection \<open>containsRequiredDigits\<close>

fun digitMask_loop :: "int \<Rightarrow> string \<Rightarrow> int option" where
  "digitMask_loop digitMask [] = Some digitMask"
| "digitMask_loop digitMask (c # number) =
     do { b \<leftarrow> shl1 (digit_value c); digitMask_loop (digitMask OR b) number }"

fun required_loop :: "int \<Rightarrow> string \<Rightarrow> bool option" where
  "required_loop digitMask [] = Some True"
| "required_loop digitMask (digit # requiredDigits) =
     do { b \<leftarrow> shl1 (digit_value digit);
          if digitMask AND b = 0 then Some False
          else required_loop digitMask requiredDigits }"

definition containsRequiredDigits :: "string \<Rightarrow> string \<Rightarrow> bool option" where
  "containsRequiredDigits number requiredDigits =
     do { digitMask \<leftarrow> digitMask_loop 0 number; required_loop digitMask requiredDigits }"

subsection \<open>filterDivisibleByCandidate\<close>

definition accumulate :: "int \<Rightarrow> int \<Rightarrow> char \<Rightarrow> (int \<times> int) option" where
  \<comment> \<open>one round of \<^verbatim>\<open>remainder = (remainder * 10 + (c - '0')) % candidateGCD\<close>: the value
      of \<^verbatim>\<open>remainder * 10 + (c - '0')\<close> and the new remainder\<close>
  "accumulate candidateGCD remainder c =
     do { t \<leftarrow> int_range (remainder * 10);
          u \<leftarrow> int_range (t + digit_value c);
          r \<leftarrow> cpp_mod u candidateGCD;
          Some (u, r) }"

fun remainder_loop :: "int \<Rightarrow> int \<Rightarrow> string \<Rightarrow> int option" where
  "remainder_loop candidateGCD remainder [] = Some remainder"
| "remainder_loop candidateGCD remainder (c # opt) =
     do { (u, r) \<leftarrow> accumulate candidateGCD remainder c;
          remainder_loop candidateGCD r opt }"

fun filterDivisibleByCandidate :: "string list \<Rightarrow> int \<Rightarrow> string list option" where
  "filterDivisibleByCandidate [] candidateGCD = Some []"
| "filterDivisibleByCandidate (opt # options) candidateGCD =
     do { remainder \<leftarrow> remainder_loop candidateGCD 0 opt;
          filtered \<leftarrow> filterDivisibleByCandidate options candidateGCD;
          Some (if remainder = 0 then opt # filtered else filtered) }"

text \<open>
  The values the loop over the characters of one string goes through: for each character
  the sum \<^verbatim>\<open>remainder * 10 + (c - '0')\<close> and the remainder stored after it.
\<close>

fun remainder_steps :: "int \<Rightarrow> int \<Rightarrow> string \<Rightarrow> (int \<times> int) list option" where
  "remainder_steps candidateGCD remainder [] = Some []"
| "remainder_steps candidateGCD remainder (c # opt) =
     do { (u, r) \<leftarrow> accumulate candidateGCD remainder c;
          steps \<leftarrow> remainder_steps candidateGCD r opt;
          Some ((u, r) # steps) }"

text \<open>The base-10 integer a string of digits denotes.\<close>

definition decimal_value :: "string \<Rightarrow> int" where
  "decimal_value s = foldl (\<lambda>a c. a * 10 + digit_value c) 0 s"

subsection \<open>filterByColumn and filterDisallowedValues\<close>

fun filterByColumn :: "string list \<Rightarrow> int \<Rightarrow> char \<Rightarrow> string list option" where
  "filterByColumn [] column v = Some []"
| "filterByColumn (number # numbers) column v =
     do { ch \<leftarrow> string_at number column;
          filtered \<leftarrow> filterByColumn numbers column v;
          Some (if ch = v then number # filtered else filtered) }"

fun filterDisallowedValues :: "string list \<Rightarrow> int \<Rightarrow> char list \<Rightarrow> string list option" where
  "filterDisallowedValues [] column disallowedValues = Some []"
| "filterDisallowedValues (number # numbers) column disallowedValues =
     do { ch \<leftarrow> string_at number column;
          filtered \<leftarrow> filterDisallowedValues numbers column disallowedValues;
          Some (if ch \<notin> set disallowedValues then number # filtered else filtered) }"

text \<open>The predicates the two position filters are specified by.\<close>

definition position_equals :: "int \<Rightarrow> char \<Rightarrow> string \<Rightarrow> bool" where
  "position_equals column v number = (string_at number column = Some v)"

definition position_excludes :: "int \<Rightarrow> char list \<Rightarrow> string \<Rightarrow> bool" where
  "position_excludes column disallowedValues number =
     (case string_at number column of None \<Rightarrow> False | Some ch \<Rightarrow> ch \<notin> set disallowedValues)"

definition position_defined :: "int \<Rightarrow> string list \<Rightarrow> bool" where
  \<comment> \<open>the position can be read in every string of the list\<close>
  "position_defined column numbers = list_all (\<lambda>number. string_at number column \<noteq> None) numbers"

section \<open>The candidate divisors\<close>

function candidateGCDs_from :: "int \<Rightarrow> int list" where
  "candidateGCDs_from candidateGCD =
     (if candidateGCD \<ge> 337 then
        (let lastDigit = candidateGCD smod 10 in
         if lastDigit = 1 \<or> lastDigit = 3 \<or> lastDigit = 7 \<or> lastDigit = 9
         then [candidateGCD] else [])
        @ candidateGCDs_from (candidateGCD - 1)
      else [])"
  by pat_completeness auto
termination
  by (relation "measure (\<lambda>g. nat (g - 336))") auto

declare candidateGCDs_from.simps [simp del]

definition candidateGCDs :: "int list" where
  "candidateGCDs = candidateGCDs_from 12345678"

section \<open>The candidate generator\<close>

subsection \<open>std::next_permutation\<close>

text \<open>
  The standard library's \<^verbatim>\<open>std::next_permutation\<close> on a whole string: the rightmost
  position whose element is smaller than its right neighbour is exchanged with the
  rightmost larger element behind it and the part behind the position is reversed; when
  there is no such position the string is reversed (it becomes ascending) and the result
  is \<^verbatim>\<open>false\<close>. In \<open>next_permutation (x # xs)\<close> the recursive call looks for the
  position inside \<open>xs\<close> first; when there is none it returns \<open>xs\<close> reversed, which is
  ascending, so the rightmost element of \<open>xs\<close> larger than \<open>x\<close> is the first such
  element of the reversed list.
\<close>

fun swap_first_greater :: "'a::linorder \<Rightarrow> 'a list \<Rightarrow> ('a \<times> 'a list) option" where
  "swap_first_greater x [] = None"
| "swap_first_greater x (y # ys) =
     (if x < y then Some (y, x # ys)
      else map_option (\<lambda>(b, r). (b, y # r)) (swap_first_greater x ys))"

fun next_permutation :: "'a::linorder list \<Rightarrow> 'a list \<times> bool" where
  "next_permutation [] = ([], False)"
| "next_permutation (x # xs) =
     (case next_permutation xs of
        (ys, True) \<Rightarrow> (x # ys, True)
      | (ys, False) \<Rightarrow>
          (case swap_first_greater x ys of
             Some (b, r) \<Rightarrow> (b # r, True)
           | None \<Rightarrow> (ys @ [x], False)))"



text \<open>
  The successor is a permutation, lexicographically larger, and the least such; this is
  what makes the \<^verbatim>\<open>do ... while (next_permutation(...))\<close> loop terminate.
\<close>

lemma swap_first_greater_None:
  "swap_first_greater x ys = None \<longleftrightarrow> (\<forall>y\<in>set ys. y \<le> x)"
  by (induction ys) (auto simp: not_less)

lemma swap_first_greater_Some:
  "swap_first_greater x ys = Some (b, r) \<Longrightarrow> sorted ys \<Longrightarrow>
     x < b \<and> mset (b # r) = mset (x # ys) \<and> sorted r \<and> (\<forall>y\<in>set ys. x < y \<longrightarrow> b \<le> y)"
proof (induction ys arbitrary: b r)
  case Nil
  then show ?case by simp
next
  case (Cons y ys)
  show ?case
  proof (cases "x < y")
    case True
    then have "\<forall>z\<in>set ys. x \<le> z" using Cons.prems(2) by fastforce
    then show ?thesis using True Cons.prems by auto
  next
    case False
    then obtain r' where s: "swap_first_greater x ys = Some (b, r')" and r: "r = y # r'"
      using Cons.prems(1) by auto
    have ih: "x < b" "mset (b # r') = mset (x # ys)" "sorted r'" "\<forall>z\<in>set ys. x < z \<longrightarrow> b \<le> z"
      using Cons.IH [OF s] Cons.prems(2) by simp_all
    have "set r' \<subseteq> insert x (set ys)"
      using ih(2) by (metis mset_eq_setD set_subset_Cons list.simps(15) subset_insertI2 insert_mono order_refl set_mset_mset subsetI insert_iff)
    then have "\<forall>z\<in>set r'. y \<le> z" using Cons.prems(2) False by auto
    then show ?thesis using ih r False by auto
  qed
qed

lemma sorted_least:
  "sorted xs \<Longrightarrow> mset zs = mset xs \<Longrightarrow> xs \<le> zs"
proof (induction xs arbitrary: zs)
  case Nil
  then show ?case by simp
next
  case (Cons x xs)
  obtain z zs' where zs: "zs = z # zs'" using Cons.prems(2) by (cases zs) auto
  have "z \<in> set (x # xs)" using Cons.prems(2) zs by (metis list.set_intros(1) mset_eq_setD)
  then have xz: "x \<le> z" using Cons.prems(1) by auto
  show ?case
  proof (cases "x = z")
    case True
    then have "mset zs' = mset xs" using Cons.prems(2) zs by simp
    then show ?thesis using Cons.IH Cons.prems(1) True zs by simp
  next
    case False
    then show ?thesis using xz zs by simp
  qed
qed

lemma rev_sorted_greatest:
  "sorted (rev xs) \<Longrightarrow> mset zs = mset xs \<Longrightarrow> zs \<le> xs"
proof (induction xs arbitrary: zs)
  case Nil
  then show ?case by simp
next
  case (Cons x xs)
  obtain z zs' where zs: "zs = z # zs'" using Cons.prems(2) by (cases zs) auto
  have s: "sorted (rev xs)" "\<forall>y\<in>set xs. y \<le> x"
    using Cons.prems(1) by (auto simp: sorted_append)
  have "z \<in> set (x # xs)" using Cons.prems(2) zs by (metis list.set_intros(1) mset_eq_setD)
  then have zx: "z \<le> x" using s(2) by auto
  show ?case
  proof (cases "x = z")
    case True
    then have "mset zs' = mset xs" using Cons.prems(2) zs by simp
    then show ?thesis using Cons.IH s(1) True zs by simp
  next
    case False
    then show ?thesis using zx zs by simp
  qed
qed


lemma next_permutation_False:
  "next_permutation xs = (ys, False) \<Longrightarrow> ys = rev xs \<and> sorted (rev xs)"
proof (induction xs arbitrary: ys)
  case Nil
  then show ?case by simp
next
  case (Cons x xs)
  obtain ys' t where np: "next_permutation xs = (ys', t)" by (cases "next_permutation xs")
  have t: "\<not> t" using Cons.prems np by (cases t) auto
  have ih: "ys' = rev xs" "sorted (rev xs)" using Cons.IH [of ys'] np t by simp_all
  have none: "swap_first_greater x ys' = None" and ys: "ys = ys' @ [x]"
    using Cons.prems np t by (auto split: option.splits)
  have "\<forall>y\<in>set xs. y \<le> x" using none ih(1) by (simp add: swap_first_greater_None)
  then show ?case using ih ys by (simp add: sorted_append)
qed

lemma next_permutation_True:
  "next_permutation xs = (ys, True) \<Longrightarrow>
     mset ys = mset xs \<and> xs < ys \<and> (\<forall>zs. mset zs = mset xs \<and> xs < zs \<longrightarrow> ys \<le> zs)"
proof (induction xs arbitrary: ys)
  case Nil
  then show ?case by simp
next
  case (Cons x xs)
  obtain ys' t where np: "next_permutation xs = (ys', t)" by (cases "next_permutation xs")
  show ?case
  proof (cases t)
    case True
    then have ys: "ys = x # ys'" using Cons.prems np by simp
    have ih: "mset ys' = mset xs" "xs < ys'" "\<forall>zs. mset zs = mset xs \<and> xs < zs \<longrightarrow> ys' \<le> zs"
      using Cons.IH [of ys'] np True by simp_all
    have "ys \<le> zs" if z: "mset zs = mset (x # xs)" "x # xs < zs" for zs
    proof -
      obtain z zs' where zs: "zs = z # zs'" using z(1) by (cases zs) auto
      show ?thesis
      proof (cases "x = z")
        case True
        then have "mset zs' = mset xs" "xs < zs'" using z zs by simp_all
        then show ?thesis using ih(3) True zs ys by simp
      next
        case False
        then show ?thesis using z(2) zs ys by simp
      qed
    qed
    then show ?thesis using ih ys by simp
  next
    case False
    then have fa: "ys' = rev xs" "sorted (rev xs)"
      using next_permutation_False [of xs ys'] np by simp_all
    obtain b r where sw: "swap_first_greater x ys' = Some (b, r)" and ys: "ys = b # r"
      using Cons.prems np False by (auto split: option.splits)
    have p: "x < b" "mset (b # r) = mset (x # ys')" "sorted r" "\<forall>y\<in>set ys'. x < y \<longrightarrow> b \<le> y"
      using swap_first_greater_Some [OF sw] fa by simp_all
    have "ys \<le> zs" if z: "mset zs = mset (x # xs)" "x # xs < zs" for zs
    proof -
      obtain z zs' where zs: "zs = z # zs'" using z(1) by (cases zs) auto
      have nx: "x \<noteq> z"
      proof
        assume e: "x = z"
        then have "mset zs' = mset xs" "xs < zs'" using z zs by simp_all
        then show False using rev_sorted_greatest [OF fa(2), of zs'] by simp
      qed
      then have xz: "x < z" using z(2) zs by simp
      have "z \<in> set (x # xs)" using z(1) zs by (metis list.set_intros(1) mset_eq_setD)
      then have "z \<in> set ys'" using nx fa(1) by simp
      then have bz: "b \<le> z" using p(4) xz by simp
      show ?thesis
      proof (cases "b = z")
        case True
        have "mset (b # r) = mset (z # zs')" using p(2) z(1) zs fa(1) by simp
        then have "mset zs' = mset r" using True by simp
        then have "r \<le> zs'" using sorted_least [OF p(3)] by simp
        then show ?thesis using True zs ys by simp
      next
        case False
        then show ?thesis using bz zs ys by simp
      qed
    qed
    then show ?thesis using p ys fa(1) by simp
  qed
qed

lemma permutations_above_finite: "finite {zs. mset zs = mset xs \<and> xs < zs}"
  by (rule finite_subset [OF _ mset_eq_finite [of xs]]) auto

lemma next_permutation_measure:
  assumes "next_permutation xs = (ys, True)"
  shows "card {zs. mset zs = mset ys \<and> ys < zs} < card {zs. mset zs = mset xs \<and> xs < zs}"
proof (rule psubset_card_mono [OF permutations_above_finite])
  have p: "mset ys = mset xs" "xs < ys" using next_permutation_True [OF assms] by simp_all
  have "ys \<in> {zs. mset zs = mset xs \<and> xs < zs}" using p by simp
  moreover have "ys \<notin> {zs. mset zs = mset ys \<and> ys < zs}" by simp
  moreover have "{zs. mset zs = mset ys \<and> ys < zs} \<subseteq> {zs. mset zs = mset xs \<and> xs < zs}"
    using p by auto
  ultimately show "{zs. mset zs = mset ys \<and> ys < zs} \<subset> {zs. mset zs = mset xs \<and> xs < zs}"
    by blast
qed


subsection \<open>The loop of one worker thread\<close>

text \<open>
  The body of the lambda a thread runs: the \<^verbatim>\<open>do ... while\<close> loop over the permutations
  of \<^verbatim>\<open>localDigits\<close>. The counter \<^verbatim>\<open>count\<close> is only printed and is left out.
  \<open>permutation_loop_unfiltered\<close> is the same loop without the test of
  \<open>containsRequiredDigits\<close>.
\<close>

function permutation_loop :: "string \<Rightarrow> string \<Rightarrow> string list \<Rightarrow> string list option" where
  "permutation_loop requiredDigits localDigits localValidNumbers =
     do { ok \<leftarrow> containsRequiredDigits localDigits requiredDigits;
          let localValidNumbers' =
                (if ok then localValidNumbers @ [localDigits] else localValidNumbers);
          case next_permutation localDigits of
            (nextDigits, True) \<Rightarrow> permutation_loop requiredDigits nextDigits localValidNumbers'
          | (nextDigits, False) \<Rightarrow> Some localValidNumbers' }"
  by pat_completeness auto
termination
  by (relation "measure (\<lambda>(requiredDigits, localDigits, localValidNumbers).
                   card {zs. mset zs = mset localDigits \<and> localDigits < zs})")
     (simp_all add: next_permutation_measure)

function permutation_loop_unfiltered :: "string \<Rightarrow> string list \<Rightarrow> string list" where
  "permutation_loop_unfiltered localDigits localValidNumbers =
     (let localValidNumbers' = localValidNumbers @ [localDigits] in
      case next_permutation localDigits of
        (nextDigits, True) \<Rightarrow> permutation_loop_unfiltered nextDigits localValidNumbers'
      | (nextDigits, False) \<Rightarrow> localValidNumbers')"
  by pat_completeness auto
termination
  by (relation "measure (\<lambda>(localDigits, localValidNumbers).
                   card {zs. mset zs = mset localDigits \<and> localDigits < zs})")
     (simp_all add: next_permutation_measure)

declare permutation_loop.simps [simp del]
declare permutation_loop_unfiltered.simps [simp del]

subsection \<open>The shards and their merge\<close>

text \<open>
  \<^verbatim>\<open>main\<close> starts one thread per digit that is not required; each appends its strings to
  \<^verbatim>\<open>validNumbers\<close> under the mutex when it is done. The order in which the threads get
  there is not fixed by the program, so it is a parameter: \<open>order\<close> lists the skipped
  digits in the order of the merges, a permutation of \<open>skipDigits\<close>
  (\<open>completion_order\<close>).
\<close>

definition main_requiredDigits :: string where
  "main_requiredDigits = ''025''"

definition skipDigits :: "string \<Rightarrow> string" where
  "skipDigits requiredDigits =
     filter (\<lambda>skipDigit. skipDigit \<notin> set requiredDigits) alphabet"

definition shard_digits :: "char \<Rightarrow> string" where
  "shard_digits skipDigit = sort (filter (\<lambda>d. d \<noteq> skipDigit) alphabet)"

definition shard :: "string \<Rightarrow> char \<Rightarrow> string list option" where
  "shard requiredDigits skipDigit =
     permutation_loop requiredDigits (shard_digits skipDigit) []"

fun merge_shards :: "string \<Rightarrow> string \<Rightarrow> string list \<Rightarrow> string list option" where
  "merge_shards requiredDigits [] validNumbers = Some validNumbers"
| "merge_shards requiredDigits (skipDigit # order) validNumbers =
     do { localValidNumbers \<leftarrow> shard requiredDigits skipDigit;
          merge_shards requiredDigits order (validNumbers @ localValidNumbers) }"

definition completion_order :: "string \<Rightarrow> string \<Rightarrow> bool" where
  "completion_order requiredDigits order = (mset order = mset (skipDigits requiredDigits))"

definition generate :: "string \<Rightarrow> string \<Rightarrow> string list option" where
  "generate requiredDigits order = merge_shards requiredDigits order []"

definition shard_unfiltered :: "char \<Rightarrow> string list" where
  "shard_unfiltered skipDigit = permutation_loop_unfiltered (shard_digits skipDigit) []"

fun merge_shards_unfiltered :: "string \<Rightarrow> string list \<Rightarrow> string list" where
  "merge_shards_unfiltered [] validNumbers = validNumbers"
| "merge_shards_unfiltered (skipDigit # order) validNumbers =
     merge_shards_unfiltered order (validNumbers @ shard_unfiltered skipDigit)"

definition generate_unfiltered :: "string \<Rightarrow> string list" where
  "generate_unfiltered order = merge_shards_unfiltered order []"

section \<open>The base puzzle\<close>

text \<open>
  STEP 2 of \<^verbatim>\<open>main\<close> builds, for each of the nine rows, the list of the generated strings
  that pass the row's position filters, applied one after the other. The nine blocks of
  \<^verbatim>\<open>main\<close> differ only in the filters they apply, listed here in the order of the code.
\<close>

datatype row_filter = Fixed int char | Disallowed int "char list"

fun apply_filter :: "row_filter \<Rightarrow> string list \<Rightarrow> string list option" where
  "apply_filter (Fixed column v) numbers = filterByColumn numbers column v"
| "apply_filter (Disallowed column vs) numbers = filterDisallowedValues numbers column vs"

fun apply_filters :: "row_filter list \<Rightarrow> string list \<Rightarrow> string list option" where
  "apply_filters [] rowOptions = Some rowOptions"
| "apply_filters (f # fs) rowOptions =
     do { rowOptions' \<leftarrow> apply_filter f rowOptions; apply_filters fs rowOptions' }"

definition row_filters :: "row_filter list list" where
  "row_filters =
     [[Fixed 7 CHR ''2'',
       Disallowed 2 ''0'', Disallowed 4 ''0'', Disallowed 6 ''5'', Disallowed 8 ''5''],
      [Fixed 4 CHR ''2'', Fixed 8 CHR ''5'',
       Disallowed 2 ''0'', Disallowed 4 ''0''],
      [Fixed 1 CHR ''2'',
       Disallowed 2 ''0'', Disallowed 4 ''0'', Disallowed 6 ''5'', Disallowed 7 ''5'',
       Disallowed 8 ''5''],
      [Fixed 2 CHR ''0'',
       Disallowed 1 ''2'', Disallowed 3 ''2'', Disallowed 4 ''2'', Disallowed 5 ''2'',
       Disallowed 7 ''2'', Disallowed 6 ''5'', Disallowed 8 ''5''],
      [Disallowed 0 ''0'', Disallowed 1 ''02'', Disallowed 2 ''0'', Disallowed 4 ''02'',
       Disallowed 6 ''5'', Disallowed 8 ''5''],
      [Fixed 3 CHR ''2'',
       Disallowed 0 ''0'', Disallowed 1 ''0'', Disallowed 2 ''0'', Disallowed 4 ''0'',
       Disallowed 6 ''5'', Disallowed 8 ''5''],
      [Fixed 4 CHR ''0'',
       Disallowed 1 ''2'', Disallowed 3 ''2'', Disallowed 5 ''2'', Disallowed 7 ''2'',
       Disallowed 6 ''5'', Disallowed 7 ''5'', Disallowed 8 ''5''],
      [Fixed 5 CHR ''2'',
       Disallowed 2 ''0'', Disallowed 3 ''0'', Disallowed 4 ''0'', Disallowed 6 ''5'',
       Disallowed 7 ''5'', Disallowed 8 ''5''],
      [Fixed 6 CHR ''5'',
       Disallowed 1 ''2'', Disallowed 3 ''2'', Disallowed 4 ''2'', Disallowed 5 ''2'',
       Disallowed 7 ''2'', Disallowed 2 ''0'', Disallowed 3 ''0'', Disallowed 4 ''0'',
       Disallowed 5 ''0'']]"

fun build_rows :: "row_filter list list \<Rightarrow> string list \<Rightarrow> string list list option" where
  "build_rows [] validNumbers = Some []"
| "build_rows (fs # rest) validNumbers =
     do { rowOptions \<leftarrow> apply_filters fs validNumbers;
          puzzle \<leftarrow> build_rows rest validNumbers;
          Some (rowOptions # puzzle) }"

definition build_puzzle :: "string list \<Rightarrow> string list list option" where
  "build_puzzle validNumbers = build_rows row_filters validNumbers"

section \<open>The backtracking solver\<close>

text \<open>
  The state the lambda \<^verbatim>\<open>solveFixed\<close> captures by reference: the two mask arrays, the grid
  under construction, the accumulator of solutions and the counter of candidates tried
  (an \<^verbatim>\<open>unsigned long long\<close>, a 64-bit word). The arrays \<^verbatim>\<open>colMask\<close>, \<^verbatim>\<open>boxMask\<close>
  and the grid \<^verbatim>\<open>solution\<close> have 9 (9 by 9) entries from their declarations on and are
  only updated in place, at indices below 9.
\<close>

record search_state =
  colMask :: "int list"
  boxMask :: "int list"
  solution :: "int list list"
  allSolutions :: "int list list list"
  candidateTries :: "64 word"

definition initial_state :: search_state where
  "initial_state =
     \<lparr>colMask = replicate 9 0, boxMask = replicate 9 0,
      solution = replicate 9 (replicate 9 0), allSolutions = [], candidateTries = 0\<rparr>"

definition rowOrder :: "nat list" where
  "rowOrder = [1, 8, 5, 3, 6, 7, 2, 0, 4]"

definition getBoxIndex :: "nat \<Rightarrow> nat \<Rightarrow> nat" where
  \<comment> \<open>also the entries of the table \<^verbatim>\<open>boxIndices\<close>, which is filled from it\<close>
  "getBoxIndex r c = (r div 3) * 3 + (c div 3)"

definition hasZeroInFirstColumns :: "int list list \<Rightarrow> bool" where
  "hasZeroInFirstColumns sol =
     list_ex (\<lambda>c. list_ex (\<lambda>r. sol ! r ! c = 0) [0..<9]) [0..<3]"

definition column_conflict :: "search_state \<Rightarrow> nat \<Rightarrow> int list \<Rightarrow> nat \<Rightarrow> bool option" where
  \<comment> \<open>the test of one column:
      \<^verbatim>\<open>(colMask[c] & (1 << d)) || (boxMask[b] & (1 << d))\<close> for \<^verbatim>\<open>d = cand[c]\<close>\<close>
  "column_conflict st r cand c =
     do { d \<leftarrow> vector_at cand c;
          b \<leftarrow> shl1 d;
          Some (colMask st ! c AND b \<noteq> 0 \<or> boxMask st ! getBoxIndex r c AND b \<noteq> 0) }"

fun conflict_loop :: "search_state \<Rightarrow> nat \<Rightarrow> int list \<Rightarrow> nat list \<Rightarrow> bool option" where
  \<comment> \<open>\<^verbatim>\<open>for (int c = 2; c < 9; c++)\<close> with its \<^verbatim>\<open>break\<close>\<close>
  "conflict_loop st r cand [] = Some False"
| "conflict_loop st r cand (c # cs) =
     do { conflict \<leftarrow> column_conflict st r cand c;
          if conflict then Some True else conflict_loop st r cand cs }"

definition has_conflict :: "search_state \<Rightarrow> nat \<Rightarrow> int list \<Rightarrow> bool option" where
  \<comment> \<open>the conflict check as the code unrolls it: column 0, then column 1 when column 0
      did not conflict, then the loop over columns 2 to 8\<close>
  "has_conflict st r cand =
     do { conflict0 \<leftarrow> column_conflict st r cand 0;
          if conflict0 then Some True
          else do { conflict1 \<leftarrow> column_conflict st r cand 1;
                    if conflict1 then Some True
                    else conflict_loop st r cand [2..<9] } }"

fun place_loop :: "search_state \<Rightarrow> nat \<Rightarrow> int list \<Rightarrow> nat list \<Rightarrow> search_state option" where
  \<comment> \<open>\<^verbatim>\<open>for (int c = 0; c < 9; c++)\<close>: update masks and solution\<close>
  "place_loop st r cand [] = Some st"
| "place_loop st r cand (c # cs) =
     do { d \<leftarrow> vector_at cand c;
          b \<leftarrow> shl1 d;
          place_loop
            (st\<lparr>colMask := (colMask st)[c := colMask st ! c OR b],
                boxMask := (boxMask st)[getBoxIndex r c := boxMask st ! getBoxIndex r c OR b],
                solution := (solution st)[r := (solution st ! r)[c := d]]\<rparr>)
            r cand cs }"

definition tryCandidate ::
  "(search_state \<Rightarrow> search_state option) \<Rightarrow> nat \<Rightarrow> int list \<Rightarrow> search_state
     \<Rightarrow> search_state option" where
  \<comment> \<open>the body of \<^verbatim>\<open>for (const auto &cand : candidates[r])\<close>; \<open>solveNext\<close> is the
      recursive call \<^verbatim>\<open>solveFixed(pos + 1)\<close>\<close>
  "tryCandidate solveNext r cand st0 =
     do { let st = st0\<lparr>candidateTries := candidateTries st0 + 1\<rparr>;
          conflict \<leftarrow> has_conflict st r cand;
          if conflict then Some st
          else do {
            let oldColMask = colMask st;
            let oldBoxMask = boxMask st;
            st' \<leftarrow> place_loop st r cand [0..<9];
            st'' \<leftarrow> solveNext st';
            Some (st''\<lparr>colMask := oldColMask, boxMask := oldBoxMask\<rparr>) } }"

fun tryCandidates ::
  "(search_state \<Rightarrow> search_state option) \<Rightarrow> nat \<Rightarrow> int list list \<Rightarrow> search_state
     \<Rightarrow> search_state option" where
  "tryCandidates solveNext r [] st = Some st"
| "tryCandidates solveNext r (cand # cands) st =
     do { st' \<leftarrow> tryCandidate solveNext r cand st;
          tryCandidates solveNext r cands st' }"

lemma tryCandidate_cong [fundef_cong]:
  assumes "\<And>s. f s = g s" and "r = r'" and "cand = cand'" and "st = st'"
  shows "tryCandidate f r cand st = tryCandidate g r' cand' st'"
proof -
  have "f = g" using assms(1) by (rule ext)
  then show ?thesis using assms(2-) by simp
qed

lemma tryCandidates_cong [fundef_cong]:
  assumes "\<And>s. f s = g s" and "r = r'" and "cands = cands'" and "st = st'"
  shows "tryCandidates f r cands st = tryCandidates g r' cands' st'"
proof -
  have "f = g" using assms(1) by (rule ext)
  then show ?thesis using assms(2-) by simp
qed

function solveFixed :: "int list list list \<Rightarrow> nat \<Rightarrow> search_state \<Rightarrow> search_state option" where
  "solveFixed candidates pos st =
     (if pos = 9 then
        Some (if hasZeroInFirstColumns (solution st)
              then st\<lparr>allSolutions := allSolutions st @ [solution st]\<rparr> else st)
      else
        do { r \<leftarrow> vector_at rowOrder pos;
             cands \<leftarrow> vector_at candidates r;
             tryCandidates (solveFixed candidates (pos + 1)) r cands st })"
  by pat_completeness auto
termination
  by (relation "measure (\<lambda>(candidates, pos, st). 9 - pos)")
     (auto simp: vector_at_def rowOrder_def split: if_splits)

declare solveFixed.simps [simp del]

subsection \<open>What the solver is given and what it is to find\<close>

text \<open>
  A candidate as the divisor loop hands it to the solver: the nine digits of a generated
  string, pairwise distinct. \<open>grid_column\<close> and \<open>grid_box\<close> list the nine cells of a column and of a
  3 by 3 box of a grid; \<open>accepted_grid\<close> is the set of grids the solver is to find.
\<close>

definition wf_candidate :: "int list \<Rightarrow> bool" where
  "wf_candidate cand =
     (length cand = 9 \<and> distinct cand \<and> list_all (\<lambda>d. 0 \<le> d \<and> d \<le> 9) cand)"

definition wf_candidates :: "int list list list \<Rightarrow> bool" where
  "wf_candidates candidates =
     (length candidates = 9 \<and> list_all (list_all wf_candidate) candidates)"

definition grid_column :: "int list list \<Rightarrow> nat \<Rightarrow> int list" where
  "grid_column g c = map (\<lambda>r. g ! r ! c) [0..<9]"

definition grid_box :: "int list list \<Rightarrow> nat \<Rightarrow> int list" where
  "grid_box g b = map (\<lambda>k. g ! (3 * (b div 3) + k div 3) ! (3 * (b mod 3) + k mod 3)) [0..<9]"

definition accepted_grid :: "int list list list \<Rightarrow> int list list \<Rightarrow> bool" where
  "accepted_grid candidates g =
     (length g = 9
      \<and> list_all (\<lambda>r. g ! r \<in> set (candidates ! r)) [0..<9]
      \<and> list_all (\<lambda>c. distinct (grid_column g c)) [0..<9]
      \<and> list_all (\<lambda>b. distinct (grid_box g b)) [0..<9]
      \<and> list_ex (\<lambda>r. list_ex (\<lambda>c. g ! r ! c = 0) [0..<3]) [0..<9])"

section \<open>The divisor search loop\<close>

text \<open>
  One round of \<^verbatim>\<open>for (int candidateGCD : candidateGCDs)\<close>. \<open>basePuzzle\<close> holds the nine row
  lists built before the loop; each round works on a copy. \<open>filter_rows\<close> is the loop over
  the rows with its \<^verbatim>\<open>break\<close> at the first empty list; its flag is \<^verbatim>\<open>validCandidate\<close>.
  The thread that prints the progress only reads the counters and is left out.
\<close>

fun filter_rows :: "int \<Rightarrow> string list list \<Rightarrow> nat list \<Rightarrow> (bool \<times> string list list) option" where
  "filter_rows candidateGCD candidatePuzzle [] = Some (True, candidatePuzzle)"
| "filter_rows candidateGCD candidatePuzzle (r # rs) =
     do { row \<leftarrow> vector_at candidatePuzzle r;
          filtered \<leftarrow> filterDivisibleByCandidate row candidateGCD;
          let candidatePuzzle' = candidatePuzzle[r := filtered];
          if filtered = [] then Some (False, candidatePuzzle')
          else filter_rows candidateGCD candidatePuzzle' rs }"

definition to_digits :: "string \<Rightarrow> int list" where
  \<comment> \<open>\<^verbatim>\<open>for (char c : s) cand.push_back(c - '0')\<close>\<close>
  "to_digits s = map digit_value s"

definition candidates_of :: "string list list \<Rightarrow> int list list list" where
  "candidates_of candidatePuzzle = map (\<lambda>r. map to_digits (candidatePuzzle ! r)) [0..<9]"

datatype outcome = Skipped | Solved search_state

fun solver_invocations :: "outcome \<Rightarrow> nat" where
  "solver_invocations Skipped = 0"
| "solver_invocations (Solved st) = 1"

definition try_divisor :: "string list list \<Rightarrow> int \<Rightarrow> outcome option" where
  "try_divisor basePuzzle candidateGCD =
     do { (validCandidate, candidatePuzzle) \<leftarrow> filter_rows candidateGCD basePuzzle [0..<9];
          if \<not> validCandidate then Some Skipped
          else do { st \<leftarrow> solveFixed (candidates_of candidatePuzzle) 0 initial_state;
                    Some (Solved st) } }"

text \<open>
  The loop ends at the first divisor whose round leaves \<^verbatim>\<open>allSolutions\<close> non-empty, with
  that divisor and the solutions (which it prints), or runs through the whole list.
\<close>

fun divisor_loop ::
  "string list list \<Rightarrow> int list \<Rightarrow> (int \<times> int list list list) option option" where
  "divisor_loop basePuzzle [] = Some None"
| "divisor_loop basePuzzle (candidateGCD # rest) =
     do { out \<leftarrow> try_divisor basePuzzle candidateGCD;
          case out of
            Skipped \<Rightarrow> divisor_loop basePuzzle rest
          | Solved st \<Rightarrow>
              if allSolutions st \<noteq> [] then Some (Some (candidateGCD, allSolutions st))
              else divisor_loop basePuzzle rest }"

definition yields_solutions :: "string list list \<Rightarrow> int \<Rightarrow> bool" where
  \<comment> \<open>the round of this divisor runs the solver and its solution set is non-empty\<close>
  "yields_solutions basePuzzle candidateGCD =
     (case try_divisor basePuzzle candidateGCD of
        Some (Solved st) \<Rightarrow> allSolutions st \<noteq> []
      | _ \<Rightarrow> False)"

subsection \<open>The whole run\<close>


section \<open>Two grids\<close>

text \<open>
  \<open>solved_rows\<close> is the published solution of the puzzle; its rows are multiples of
  12345679 = 37 * 333667 and leave out the digit 4. \<open>mixed_rows\<close> differs from it in one
  cell of the middle row, where 8 is replaced by 4, so that the middle row leaves out 8
  instead. Every row of both grids is a string the generator produces and passes the
  position filters of its row in \<^verbatim>\<open>main\<close>. A base puzzle with these rows as the only
  candidates has one list of one string per row.
\<close>

definition solved_rows :: "string list" where
  "solved_rows =
     [''395061728'', ''061728395'', ''728395061'',
      ''950617283'', ''283950617'', ''617283950'',
      ''839506172'', ''506172839'', ''172839506'']"

definition mixed_rows :: "string list" where
  "mixed_rows =
     [''395061728'', ''061728395'', ''728395061'',
      ''950617283'', ''243950617'', ''617283950'',
      ''839506172'', ''506172839'', ''172839506'']"

definition single_candidates :: "string list \<Rightarrow> string list list" where
  "single_candidates rows = map (\<lambda>s. [s]) rows"

section \<open>Notions used in the proofs\<close>

text \<open>The digits a mask holds.\<close>

definition mask_digits :: "int \<Rightarrow> int set" where
  "mask_digits m = {d. 0 \<le> d \<and> bit m (nat d)}"

definition shape :: "search_state \<Rightarrow> bool" where
  "shape st = (length (colMask st) = 9 \<and> length (boxMask st) = 9 \<and> length (solution st) = 9
               \<and> (\<forall>row\<in>set (solution st). length row = 9))"

text \<open>
  The rows placed so far, in the order of placement, are a \<open>path\<close>: its \<open>i\<close>-th element is
  the candidate chosen for row \<open>rowOrder ! i\<close>.
\<close>

definition col_digits :: "int list list \<Rightarrow> nat \<Rightarrow> int set" where
  "col_digits path c = (\<lambda>p. p ! c) ` set path"

definition box_digits :: "int list list \<Rightarrow> nat \<Rightarrow> int set" where
  "box_digits path b =
     {path ! i ! c |i c. i < length path \<and> c < 9 \<and> getBoxIndex (rowOrder ! i) c = b}"

definition clash :: "int list list \<Rightarrow> int list \<Rightarrow> bool" where
  "clash path cand =
     (\<exists>c<9. cand ! c \<in> col_digits path c
           \<or> cand ! c \<in> box_digits path (getBoxIndex (rowOrder ! length path) c))"

definition inv :: "int list list \<Rightarrow> search_state \<Rightarrow> bool" where
  "inv path st =
     (shape st
      \<and> (\<forall>c<9. mask_digits (colMask st ! c) = col_digits path c)
      \<and> (\<forall>b<9. mask_digits (boxMask st ! b) = box_digits path b)
      \<and> (\<forall>i<length path. solution st ! (rowOrder ! i) = path ! i))"

definition row_pos :: "nat list" where
  "row_pos = [7, 0, 6, 3, 8, 2, 4, 5, 1]"

definition grid_of :: "int list list \<Rightarrow> int list list" where
  "grid_of path = map (\<lambda>r. path ! (row_pos ! r)) [0..<9]"

definition completions :: "int list list list \<Rightarrow> int list list \<Rightarrow> int list list set" where
  "completions candidates path =
     {full. length full = 9 \<and> take (length path) full = path
        \<and> (\<forall>i<9. length path \<le> i \<longrightarrow>
              full ! i \<in> set (candidates ! (rowOrder ! i)) \<and> \<not> clash (take i full) (full ! i))}"

definition found :: "int list list list \<Rightarrow> int list list \<Rightarrow> int list list set" where
  "found candidates path =
     {grid_of full |full. full \<in> completions candidates path
                         \<and> hasZeroInFirstColumns (grid_of full)}"

definition grid_ok :: "int list list \<Rightarrow> bool" where
  "grid_ok g =
     (\<forall>r1<9. \<forall>r2<9. r1 \<noteq> r2 \<longrightarrow>
        (\<forall>c1<9. \<forall>c2<9. c1 = c2 \<or> getBoxIndex r1 c1 = getBoxIndex r2 c2
            \<longrightarrow> g ! r1 ! c1 \<noteq> g ! r2 ! c2))"

fun filter_column :: "row_filter \<Rightarrow> int" where
  "filter_column (Fixed column v) = column"
| "filter_column (Disallowed column vs) = column"


section \<open>Properties of the helper functions\<close>

lemma digit_value_alphabet:
  "c \<in> set alphabet \<Longrightarrow> 0 \<le> digit_value c \<and> digit_value c \<le> 9"
  by (auto simp: alphabet_def digit_value_def char_value_def)

lemma filterByColumn_char:
  "filterByColumn numbers column v =
     (if position_defined column numbers
      then Some (filter (position_equals column v) numbers) else None)"
  unfolding position_defined_def position_equals_def
  by (induction numbers) (auto split: option.splits)

lemma filterDisallowedValues_char:
  "filterDisallowedValues numbers column ds =
     (if position_defined column numbers
      then Some (filter (position_excludes column ds) numbers) else None)"
  unfolding position_defined_def position_excludes_def
  by (induction numbers) (auto split: option.splits)

lemma smod_nonneg: "0 \<le> a \<Longrightarrow> 0 < b \<Longrightarrow> (a::int) smod b = a mod b"
  by (simp add: smod_int_alt_def sgn_if)

lemma accumulate_digit:
  assumes "0 < d" "0 \<le> r" "r * 10 + 9 \<le> INT_MAX" "c \<in> set alphabet"
  shows "accumulate d r c = Some (r * 10 + digit_value c, (r * 10 + digit_value c) mod d)"
proof -
  have dv: "0 \<le> digit_value c" "digit_value c \<le> 9"
    using digit_value_alphabet [OF assms(4)] by simp_all
  have "int_range (r * 10) = Some (r * 10)"
    using assms(2,3) by (simp add: int_range_def INT_MIN_def INT_MAX_def)
  moreover have "int_range (r * 10 + digit_value c) = Some (r * 10 + digit_value c)"
    using assms(2,3) dv by (simp add: int_range_def INT_MIN_def INT_MAX_def)
  moreover have "cpp_mod (r * 10 + digit_value c) d = Some ((r * 10 + digit_value c) mod d)"
    using assms(1,2) dv by (simp add: cpp_mod_def smod_nonneg)
  ultimately show ?thesis by (simp add: accumulate_def)
qed

lemma remainder_loop_value:
  assumes "0 < d"
  shows "set s \<subseteq> set alphabet \<Longrightarrow> length s \<le> 9 \<Longrightarrow> 0 \<le> v \<Longrightarrow> v < 10 ^ (9 - length s) \<Longrightarrow>
    remainder_loop d (v mod d) s = Some (foldl (\<lambda>a c. a * 10 + digit_value c) v s mod d)"
proof (induction s arbitrary: v)
  case Nil
  show ?case by simp
next
  case (Cons c s)
  have c: "c \<in> set alphabet" and s: "set s \<subseteq> set alphabet" using Cons.prems(1) by simp_all
  have dv: "0 \<le> digit_value c" "digit_value c \<le> 9"
    using digit_value_alphabet [OF c] by simp_all
  let ?v' = "v * 10 + digit_value c"
  let ?P = "(10::int) ^ (8 - length s)"
  have r: "0 \<le> v mod d" "v mod d \<le> v"
    using assms Cons.prems(3) by (simp_all add: zmod_le_nonneg_dividend)
  have len: "length s \<le> 8" using Cons.prems(2) by simp
  have vP: "v < ?P" using Cons.prems(4) by simp
  have "?P \<le> 10 ^ 8" by (rule power_increasing) simp_all
  then have P8: "?P \<le> 100000000" by simp
  have e: "9 - length s = Suc (8 - length s)" using len by simp
  have v': "0 \<le> ?v'" "?v' < 10 ^ (9 - length s)"
    using Cons.prems(3) dv vP by (simp_all add: e)
  have acc: "accumulate d (v mod d) c
              = Some ((v mod d) * 10 + digit_value c, ((v mod d) * 10 + digit_value c) mod d)"
    using r vP P8 by (intro accumulate_digit [OF assms _ _ c]) (simp_all add: INT_MAX_def)
  have m: "((v mod d) * 10 + digit_value c) mod d = ?v' mod d"
    by (metis mod_add_left_eq mod_mult_left_eq)
  have "remainder_loop d (?v' mod d) s
          = Some (foldl (\<lambda>a c. a * 10 + digit_value c) ?v' s mod d)"
    using Cons.IH [OF s _ v'] len by simp
  then show ?case by (simp add: acc m)
qed

lemma remainder_loop_decimal:
  assumes "0 < d" "set s \<subseteq> set alphabet" "length s \<le> 9"
  shows "remainder_loop d 0 s = Some (decimal_value s mod d)"
  using remainder_loop_value [OF assms(1,2,3), of 0] by (simp add: decimal_value_def)

lemma filterDivisibleByCandidate_filter:
  assumes "0 < d"
  shows "\<forall>s\<in>set options. set s \<subseteq> set alphabet \<and> length s \<le> 9 \<Longrightarrow>
    filterDivisibleByCandidate options d = Some (filter (\<lambda>s. decimal_value s mod d = 0) options)"
  by (induction options) (simp_all add: remainder_loop_decimal [OF assms])

section \<open>Properties of the candidate divisors\<close>

lemma range_step:
  "337 \<le> n \<Longrightarrow> {g::int. 337 \<le> g \<and> g \<le> n \<and> P g}
     = (if P n then {n} else {}) \<union> {g. 337 \<le> g \<and> g \<le> n - 1 \<and> P g}"
  by (auto simp: order_le_less)

lemma candidateGCDs_from_set:
  "set (candidateGCDs_from n) = {g. 337 \<le> g \<and> g \<le> n \<and> g mod 10 \<in> {1, 3, 7, 9}}"
proof (induction n rule: candidateGCDs_from.induct)
  case (1 n)
  show ?case
  proof (cases "337 \<le> n")
    case True
    have sm: "n smod 10 = n mod 10" using True by (simp add: smod_nonneg)
    have "set (candidateGCDs_from n) =
            (if n mod 10 \<in> {1, 3, 7, 9} then {n} else {}) \<union> set (candidateGCDs_from (n - 1))"
      using True by (subst candidateGCDs_from.simps) (simp add: sm Let_def)
    also have "\<dots> = (if n mod 10 \<in> {1, 3, 7, 9} then {n} else {}) \<union>
                     {g. 337 \<le> g \<and> g \<le> n - 1 \<and> g mod 10 \<in> {1, 3, 7, 9}}"
      using "1.IH" [OF True] by simp
    also have "\<dots> = {g. 337 \<le> g \<and> g \<le> n \<and> g mod 10 \<in> {1, 3, 7, 9}}"
      using range_step [OF True, of "\<lambda>g. g mod 10 \<in> {1, 3, 7, 9}"] by simp
    finally show ?thesis .
  next
    case False
    then show ?thesis by (subst candidateGCDs_from.simps) auto
  qed
qed

lemma candidateGCDs_from_decreasing:
  "sorted_wrt (\<lambda>a b. b < a) (candidateGCDs_from n)"
proof (induction n rule: candidateGCDs_from.induct)
  case (1 n)
  show ?case
  proof (cases "337 \<le> n")
    case True
    have below: "\<forall>g\<in>set (candidateGCDs_from (n - 1)). g < n"
      by (simp add: candidateGCDs_from_set)
    show ?thesis
      using True "1.IH" [OF True] below
      by (subst candidateGCDs_from.simps) (simp add: Let_def sorted_wrt_append)
  next
    case False
    then show ?thesis by (subst candidateGCDs_from.simps) simp
  qed
qed

lemma remainder_steps_bounds:
  assumes "337 \<le> d" "d \<le> 12345678"
  shows "set s \<subseteq> set alphabet \<Longrightarrow> 0 \<le> r \<Longrightarrow> r < d \<Longrightarrow>
    \<exists>steps. remainder_steps d r s = Some steps \<and> length steps = length s \<and>
      list_all (\<lambda>(u, r'). 0 \<le> u \<and> u \<le> 123456789 \<and> u \<le> INT_MAX \<and> 0 \<le> r' \<and> r' < d) steps"
proof (induction s arbitrary: r)
  case Nil
  show ?case by simp
next
  case (Cons c s)
  have c: "c \<in> set alphabet" and s: "set s \<subseteq> set alphabet" using Cons.prems(1) by simp_all
  have dv: "0 \<le> digit_value c" "digit_value c \<le> 9"
    using digit_value_alphabet [OF c] by simp_all
  let ?u = "r * 10 + digit_value c"
  have d0: "0 < d" using assms(1) by simp
  have acc: "accumulate d r c = Some (?u, ?u mod d)"
    using Cons.prems(2,3) assms(2)
    by (intro accumulate_digit [OF d0 _ _ c]) (simp_all add: INT_MAX_def)
  have u: "0 \<le> ?u" "?u \<le> 123456789" "?u \<le> INT_MAX"
    using Cons.prems(2,3) assms(2) dv by (simp_all add: INT_MAX_def)
  have r': "0 \<le> ?u mod d" "?u mod d < d" using d0 by simp_all
  obtain steps where st: "remainder_steps d (?u mod d) s = Some steps"
      "length steps = length s"
      "list_all (\<lambda>(u, r'). 0 \<le> u \<and> u \<le> 123456789 \<and> u \<le> INT_MAX \<and> 0 \<le> r' \<and> r' < d) steps"
    using Cons.IH [OF s r'] by blast
  show ?case using acc st u r' by simp
qed

lemma remainder_loop_steps:
  "remainder_loop d r s =
     map_option (\<lambda>steps. if steps = [] then r else snd (last steps)) (remainder_steps d r s)"
proof (induction s arbitrary: r)
  case Nil
  show ?case by simp
next
  case (Cons c s)
  show ?case
  proof (cases "accumulate d r c")
    case None
    then show ?thesis by simp
  next
    case (Some p)
    obtain u r' where p: "p = (u, r')" by (cases p)
    show ?thesis
    proof (cases "remainder_steps d r' s")
      case None
      then show ?thesis using Some p Cons.IH [of r'] by simp
    next
      case (Some steps)
      then show ?thesis using \<open>accumulate d r c = Some p\<close> p Cons.IH [of r']
        by (cases s) (auto split: Option.bind_splits)
    qed
  qed
qed

lemma filterDivisibleByCandidate_defined:
  "(\<forall>s\<in>set options. remainder_loop d 0 s \<noteq> None) \<Longrightarrow> filterDivisibleByCandidate options d \<noteq> None"
  by (induction options) auto

section \<open>Properties of the candidate generator\<close>

lemma permutation_loop_unfiltered_append:
  "permutation_loop_unfiltered xs acc = acc @ permutation_loop_unfiltered xs []"
proof (induction "card {zs. mset zs = mset xs \<and> xs < zs}" arbitrary: xs acc rule: less_induct)
  case less
  obtain ys t where np: "next_permutation xs = (ys, t)" by (cases "next_permutation xs")
  show ?case
  proof (cases t)
    case True
    have nt: "next_permutation xs = (ys, True)" using np True by simp
    have ih: "permutation_loop_unfiltered ys a = a @ permutation_loop_unfiltered ys []" for a
      by (rule less [OF next_permutation_measure [OF nt]])
    have "permutation_loop_unfiltered xs acc = permutation_loop_unfiltered ys (acc @ [xs])"
      by (subst permutation_loop_unfiltered.simps) (simp add: np True)
    moreover have "permutation_loop_unfiltered xs [] = permutation_loop_unfiltered ys [xs]"
      by (subst permutation_loop_unfiltered.simps) (simp add: np True)
    ultimately show ?thesis using ih [of "acc @ [xs]"] ih [of "[xs]"] by simp
  next
    case False
    then show ?thesis
      by (subst (1 2) permutation_loop_unfiltered.simps) (simp add: np)
  qed
qed

lemma permutation_loop_unfiltered_enumerates:
  "set (permutation_loop_unfiltered xs []) = {zs. mset zs = mset xs \<and> xs \<le> zs}
   \<and> sorted_wrt (<) (permutation_loop_unfiltered xs [])"
proof (induction "card {zs. mset zs = mset xs \<and> xs < zs}" arbitrary: xs rule: less_induct)
  case less
  obtain ys t where np: "next_permutation xs = (ys, t)" by (cases "next_permutation xs")
  show ?case
  proof (cases t)
    case True
    have nt: "next_permutation xs = (ys, True)" using np True by simp
    have ih: "set (permutation_loop_unfiltered ys []) = {zs. mset zs = mset ys \<and> ys \<le> zs}"
        "sorted_wrt (<) (permutation_loop_unfiltered ys [])"
      using less [OF next_permutation_measure [OF nt]] by simp_all
    have p: "mset ys = mset xs" "xs < ys" "\<And>zs. mset zs = mset xs \<Longrightarrow> xs < zs \<Longrightarrow> ys \<le> zs"
      using next_permutation_True [OF nt] by simp_all
    have e: "permutation_loop_unfiltered xs [] = xs # permutation_loop_unfiltered ys []"
      using permutation_loop_unfiltered_append [of ys "[xs]"]
      by (subst permutation_loop_unfiltered.simps) (simp add: nt)
    have "{zs. mset zs = mset xs \<and> xs \<le> zs} = insert xs {zs. mset zs = mset ys \<and> ys \<le> zs}"
      using p by (auto simp: order_le_less)
    moreover have "\<forall>zs\<in>{zs. mset zs = mset ys \<and> ys \<le> zs}. xs < zs"
      using p(2) by auto
    ultimately show ?thesis using ih e by simp
  next
    case False
    then have nf: "next_permutation xs = (ys, False)" using np by simp
    have e: "permutation_loop_unfiltered xs [] = [xs]"
      by (subst permutation_loop_unfiltered.simps) (simp add: nf)
    have "sorted (rev xs)" using next_permutation_False [OF nf] by simp
    then have "zs \<le> xs" if "mset zs = mset xs" for zs
      using rev_sorted_greatest that by blast
    then have "{zs. mset zs = mset xs \<and> xs \<le> zs} = {xs}" by (auto intro: order.antisym)
    then show ?thesis using e by simp
  qed
qed

lemma permutation_loop_filter:
  assumes "\<And>zs. mset zs = mset xs \<Longrightarrow> containsRequiredDigits zs R = Some (f zs)"
  shows "permutation_loop R xs acc = Some (acc @ filter f (permutation_loop_unfiltered xs []))"
  using assms
proof (induction "card {zs. mset zs = mset xs \<and> xs < zs}" arbitrary: xs acc rule: less_induct)
  case less
  obtain ys t where np: "next_permutation xs = (ys, t)" by (cases "next_permutation xs")
  have c: "containsRequiredDigits xs R = Some (f xs)" using less.prems by simp
  show ?case
  proof (cases t)
    case True
    have nt: "next_permutation xs = (ys, True)" using np True by simp
    have m: "mset ys = mset xs" using next_permutation_True [OF nt] by simp
    have ih: "permutation_loop R ys a = Some (a @ filter f (permutation_loop_unfiltered ys []))" for a
      using less.hyps [OF next_permutation_measure [OF nt]] less.prems m by simp
    have e: "permutation_loop_unfiltered xs [] = xs # permutation_loop_unfiltered ys []"
      using permutation_loop_unfiltered_append [of ys "[xs]"]
      by (subst permutation_loop_unfiltered.simps) (simp add: nt)
    show ?thesis
      by (subst permutation_loop.simps) (simp add: c nt ih e)
  next
    case False
    then have nf: "next_permutation xs = (ys, False)" using np by simp
    have e: "permutation_loop_unfiltered xs [] = [xs]"
      by (subst permutation_loop_unfiltered.simps) (simp add: nf)
    show ?thesis
      by (subst permutation_loop.simps) (simp add: c nf e)
  qed
qed

lemma sorted_permutations:
  assumes "sorted xs"
  shows "set (permutation_loop_unfiltered xs []) = {zs. mset zs = mset xs}"
    and "distinct (permutation_loop_unfiltered xs [])"
proof -
  have "xs \<le> zs" if "mset zs = mset xs" for zs using sorted_least [OF assms that] .
  then show "set (permutation_loop_unfiltered xs []) = {zs. mset zs = mset xs}"
    using permutation_loop_unfiltered_enumerates [of xs] by auto
  have "sorted_wrt (<) (permutation_loop_unfiltered xs [])"
    using permutation_loop_unfiltered_enumerates [of xs] by simp
  then show "distinct (permutation_loop_unfiltered xs [])"
    using strict_sorted_iff by blast 
qed

lemma card_permutations:
  assumes "distinct xs"
  shows "card {zs. mset zs = mset xs} = fact (length xs)"
proof -
  have "{zs. mset zs = mset xs} = {zs. length zs = length xs \<and> distinct zs \<and> set zs \<subseteq> set xs}"
  proof (intro set_eqI iffI; clarify)
    fix zs assume "mset zs = mset xs"
    then show "length zs = length xs \<and> distinct zs \<and> set zs \<subseteq> set xs"
      using assms by (metis mset_eq_length mset_eq_setD order_refl mset_eq_imp_distinct_iff)
  next
    fix zs assume z: "length zs = length xs" "distinct zs" "set zs \<subseteq> set xs"
    have "card (set zs) = card (set xs)" using z assms by (simp add: distinct_card)
    then have "set zs = set xs" using z(3) by (simp add: card_subset_eq)
    then show "mset zs = mset xs" using z(2) assms by (simp add: set_eq_iff_mset_eq_distinct)
  qed
  also have "card \<dots> = \<Prod>{card (set xs) - length xs + 1..card (set xs)}"
    by (rule card_lists_distinct_length_eq) (simp_all add: distinct_card assms)
  also have "\<dots> = fact (length xs)"
    by (simp add: distinct_card assms fact_prod)
  finally show ?thesis .
qed

lemma length_sorted_permutations:
  assumes "sorted xs" "distinct xs"
  shows "length (permutation_loop_unfiltered xs []) = fact (length xs)"
  using sorted_permutations [OF assms(1)] card_permutations [OF assms(2)]
  by (metis distinct_card)

lemma shl1_digit:
  "c \<in> set alphabet \<Longrightarrow> shl1 (digit_value c) = Some (push_bit (nat (digit_value c)) 1)"
  using digit_value_alphabet [of c] by (simp add: shl1_def)

lemma bit_single: "bit (2 ^ k :: int) n \<longleftrightarrow> n = k"
  by (auto simp: bit_exp_iff)

lemma and_single_eq_0: "(m AND (2 ^ k :: int) = 0) \<longleftrightarrow> \<not> bit m k"
proof
  assume "m AND 2 ^ k = 0"
  then have "\<not> bit (m AND 2 ^ k) k" by simp
  then show "\<not> bit m k" by (simp add: bit_and_iff bit_single)
next
  assume "\<not> bit m k"
  then show "m AND 2 ^ k = 0"
    by (intro bit_eqI) (auto simp: bit_and_iff bit_single)
qed

lemma digit_value_inj:
  "c \<in> set alphabet \<Longrightarrow> c' \<in> set alphabet \<Longrightarrow> digit_value c = digit_value c' \<Longrightarrow> c = c'"
  by (auto simp: alphabet_def digit_value_def char_value_def)

lemma digitMask_loop_digits:
  "set number \<subseteq> set alphabet \<Longrightarrow>
     \<exists>m'. digitMask_loop m number = Some m' \<and>
          (\<forall>n. bit m' n \<longleftrightarrow> bit m n \<or> (\<exists>c\<in>set number. n = nat (digit_value c)))"
proof (induction number arbitrary: m)
  case Nil
  show ?case by simp
next
  case (Cons c number)
  have c: "c \<in> set alphabet" and n: "set number \<subseteq> set alphabet" using Cons.prems by simp_all
  obtain m' where m': "digitMask_loop (m OR push_bit (nat (digit_value c)) 1) number = Some m'"
    "\<forall>n. bit m' n \<longleftrightarrow> bit (m OR push_bit (nat (digit_value c)) 1) n
           \<or> (\<exists>c\<in>set number. n = nat (digit_value c))"
    using Cons.IH [OF n] by blast
  show ?case using m' by (auto simp: shl1_digit [OF c] bit_or_iff bit_single)
qed

lemma required_loop_digits:
  "set R \<subseteq> set alphabet \<Longrightarrow>
     required_loop m R = Some (\<forall>c\<in>set R. bit m (nat (digit_value c)))"
proof (induction R)
  case Nil
  show ?case by simp
next
  case (Cons c R)
  have c: "c \<in> set alphabet" and r: "set R \<subseteq> set alphabet" using Cons.prems by simp_all
  show ?case using Cons.IH [OF r] by (simp add: shl1_digit [OF c] and_single_eq_0)
qed

lemma containsRequiredDigits_digits:
  assumes "set number \<subseteq> set alphabet" "set R \<subseteq> set alphabet"
  shows "containsRequiredDigits number R = Some (set R \<subseteq> set number)"
proof -
  obtain m where m: "digitMask_loop 0 number = Some m"
    "\<forall>n. bit m n \<longleftrightarrow> (\<exists>c\<in>set number. n = nat (digit_value c))"
    using digitMask_loop_digits [OF assms(1), of 0] by auto
  have "(\<forall>c\<in>set R. bit m (nat (digit_value c))) \<longleftrightarrow> set R \<subseteq> set number"
  proof
    assume a: "\<forall>c\<in>set R. bit m (nat (digit_value c))"
    show "set R \<subseteq> set number"
    proof
      fix c assume c: "c \<in> set R"
      then obtain c' where c': "c' \<in> set number" "nat (digit_value c) = nat (digit_value c')"
        using a m(2) by blast
      have "c \<in> set alphabet" "c' \<in> set alphabet" using c c'(1) assms by auto
      then have "digit_value c = digit_value c'"
        using c'(2) digit_value_alphabet [of c] digit_value_alphabet [of c'] by arith
      then have "c = c'" using digit_value_inj c c'(1) assms by blast
      then show "c \<in> set number" using c'(1) by simp
    qed
  next
    assume "set R \<subseteq> set number"
    then show "\<forall>c\<in>set R. bit m (nat (digit_value c))" using m(2) by auto
  qed
  then show ?thesis
    by (simp add: containsRequiredDigits_def m(1) required_loop_digits [OF assms(2)])
qed

lemma alphabet_sorted_distinct: "sorted alphabet" "distinct alphabet"
  by (simp_all add: alphabet_def less_eq_char_def)

lemma shard_digits_eq: "shard_digits s = filter (\<lambda>d. d \<noteq> s) alphabet"
  by (simp add: shard_digits_def sorted_sort_id sorted_wrt_filter alphabet_sorted_distinct)

lemma shard_digits_props:
  "sorted (shard_digits s)" "distinct (shard_digits s)"
  "set (shard_digits s) = set alphabet - {s}"
  by (auto simp: shard_digits_eq sorted_wrt_filter alphabet_sorted_distinct)

lemma shard_digits_length: "s \<in> set alphabet \<Longrightarrow> length (shard_digits s) = 9"
  by (auto simp: shard_digits_eq alphabet_def)

lemma skipDigits_set: "set (skipDigits R) = set alphabet - set R"
  by (auto simp: skipDigits_def)

lemma shard_member:
  "p \<in> set (shard_unfiltered s) \<longleftrightarrow> distinct p \<and> set p = set alphabet - {s}"
proof -
  have "p \<in> set (shard_unfiltered s) \<longleftrightarrow> mset p = mset (shard_digits s)"
    by (simp add: shard_unfiltered_def sorted_permutations(1) shard_digits_props(1))
  also have "\<dots> \<longleftrightarrow> distinct p \<and> set p = set alphabet - {s}"
    using shard_digits_props(2,3) [of s]
    by (metis mset_eq_imp_distinct_iff mset_eq_setD set_eq_iff_mset_eq_distinct)
  finally show ?thesis .
qed

lemma shard_unfiltered_length:
  "s \<in> set alphabet \<Longrightarrow> length (shard_unfiltered s) = 362880"
proof -
  assume s: "s \<in> set alphabet"
  have "length (shard_unfiltered s) = fact 9"
    using length_sorted_permutations [OF shard_digits_props(1,2), of s] shard_digits_length [OF s]
    by (simp add: shard_unfiltered_def)
  also have "\<dots> = (362880::nat)" by (simp add: fact_numeral)
  finally show ?thesis .
qed

lemma shard_unfiltered_distinct: "distinct (shard_unfiltered s)"
  by (simp add: shard_unfiltered_def sorted_permutations(2) shard_digits_props(1))

lemma shard_eq_unfiltered:
  assumes "set R \<subseteq> set alphabet" "s \<in> set (skipDigits R)"
  shows "shard R s = Some (shard_unfiltered s)"
    and "\<forall>p. mset p = mset (shard_digits s) \<longrightarrow> containsRequiredDigits p R = Some True"
proof -
  have c: "containsRequiredDigits p R = Some True" if "mset p = mset (shard_digits s)" for p
  proof -
    have sp: "set p = set alphabet - {s}"
      using that shard_digits_props(3) [of s] by (metis mset_eq_setD)
    then have "set R \<subseteq> set p" using assms by (auto simp: skipDigits_set)
    then show ?thesis using containsRequiredDigits_digits [of p R] sp assms(1) by auto
  qed
  then show "\<forall>p. mset p = mset (shard_digits s) \<longrightarrow> containsRequiredDigits p R = Some True"
    by simp
  show "shard R s = Some (shard_unfiltered s)"
    using permutation_loop_filter [of "shard_digits s" R "\<lambda>_. True" "[]"] c
    by (simp add: shard_def shard_unfiltered_def)
qed

lemma merge_shards_unfiltered_concat:
  "merge_shards_unfiltered order acc = acc @ concat (map shard_unfiltered order)"
  by (induction order arbitrary: acc) simp_all

lemma merge_shards_eq_unfiltered:
  assumes "set R \<subseteq> set alphabet"
  shows "set order \<subseteq> set (skipDigits R) \<Longrightarrow>
     merge_shards R order acc = Some (merge_shards_unfiltered order acc)"
  by (induction order arbitrary: acc) (simp_all add: shard_eq_unfiltered(1) [OF assms])

lemma generate_eq_unfiltered:
  assumes "set R \<subseteq> set alphabet" "set order \<subseteq> set (skipDigits R)"
  shows "generate R order = Some (generate_unfiltered order)"
  by (simp add: generate_def generate_unfiltered_def merge_shards_eq_unfiltered [OF assms])

lemma generate_unfiltered_length:
  "set order \<subseteq> set alphabet \<Longrightarrow> length (generate_unfiltered order) = 362880 * length order"
  by (induction order)
     (simp_all add: generate_unfiltered_def merge_shards_unfiltered_concat shard_unfiltered_length)

lemma generate_unfiltered_set:
  "set (generate_unfiltered order) =
     {p. distinct p \<and> (\<exists>s\<in>set order. set p = set alphabet - {s})}"
  by (auto simp: generate_unfiltered_def merge_shards_unfiltered_concat shard_member)

lemma diff_single_inj: "s \<in> A \<Longrightarrow> t \<in> A \<Longrightarrow> A - {s} = A - {t} \<Longrightarrow> s = t"
  by blast

lemma shard_unfiltered_disjoint:
  assumes "s \<in> set alphabet" "t \<in> set alphabet" "s \<noteq> t"
  shows "set (shard_unfiltered s) \<inter> set (shard_unfiltered t) = {}"
proof -
  have "set alphabet - {s} \<noteq> set alphabet - {t}"
    using diff_single_inj [OF assms(1,2)] assms(3) by blast
  then have "\<not> (p \<in> set (shard_unfiltered s) \<and> p \<in> set (shard_unfiltered t))" for p
    unfolding shard_member by metis
  then show ?thesis by blast
qed

lemma shard_unfiltered_nonempty: "shard_digits s \<in> set (shard_unfiltered s)"
  by (simp add: shard_member shard_digits_props)

lemma generate_unfiltered_distinct:
  assumes "distinct order" "set order \<subseteq> set alphabet"
  shows "distinct (generate_unfiltered order)"
proof -
  have dis: "set (shard_unfiltered s) \<inter> set (shard_unfiltered t) = {}"
    if "s \<in> set order" "t \<in> set order" "s \<noteq> t" for s t
    using shard_unfiltered_disjoint that assms(2) by blast
  have ne: "shard_unfiltered s \<noteq> shard_unfiltered t"
    if "s \<in> set order" "t \<in> set order" "s \<noteq> t" for s t
    using dis [OF that] shard_unfiltered_nonempty [of s] by force
  have "distinct (concat (map shard_unfiltered order))"
  proof (rule distinct_concat)
    have "inj_on shard_unfiltered (set order)"
      using ne by (intro inj_onI) blast
    then show "distinct (map shard_unfiltered order)"
      using assms(1) by (simp add: distinct_map)
  next
    fix ys assume "ys \<in> set (map shard_unfiltered order)"
    then show "distinct ys" by (auto simp: shard_unfiltered_distinct)
  next
    fix ys zs assume a: "ys \<in> set (map shard_unfiltered order)"
      "zs \<in> set (map shard_unfiltered order)" "ys \<noteq> zs"
    then obtain s t where st: "s \<in> set order" "t \<in> set order"
      "ys = shard_unfiltered s" "zs = shard_unfiltered t" by auto
    have "s \<noteq> t" using a(3) st by auto
    then show "set ys \<inter> set zs = {}" using dis st by simp
  qed
  then show ?thesis by (simp add: generate_unfiltered_def merge_shards_unfiltered_concat)
qed

lemma nine_of_ten:
  assumes "length p = 9" "distinct p" "set p \<subseteq> set alphabet"
  shows "\<exists>s\<in>set alphabet. set p = set alphabet - {s}"
proof -
  have c: "card (set p) = 9" using assms(1,2) by (simp add: distinct_card)
  have a: "card (set alphabet) = 10" by (simp add: alphabet_def)
  have "card (set alphabet - set p) = 1"
    using assms(3) c a by (simp add: card_Diff_subset)
  then obtain s where s: "set alphabet - set p = {s}" by (auto simp: card_1_singleton_iff)
  then have "set p = set alphabet - {s}" using assms(3) by blast
  moreover have "s \<in> set alphabet" using s by blast
  ultimately show ?thesis by blast
qed

lemma skipDigits_main: "skipDigits main_requiredDigits = ''1346789''"
  by (simp add: skipDigits_def main_requiredDigits_def alphabet_def)

lemma generate_result:
  assumes "set R \<subseteq> set alphabet" "completion_order R order"
  shows "generate R order = Some (generate_unfiltered order)"
    and "length (generate_unfiltered order) = 362880 * length (skipDigits R)"
    and "distinct (generate_unfiltered order)"
    and "set (generate_unfiltered order) =
           {s. length s = 9 \<and> distinct s \<and> set s \<subseteq> set alphabet \<and> set R \<subseteq> set s}"
proof -
  have m: "mset order = mset (skipDigits R)" using assms(2) by (simp add: completion_order_def)
  have so: "set order = set alphabet - set R"
    using mset_eq_setD [OF m] by (simp add: skipDigits_set)
  have lo: "length order = length (skipDigits R)" using mset_eq_length [OF m] .
  have "distinct (skipDigits R)" by (simp add: skipDigits_def alphabet_sorted_distinct)
  then have d: "distinct order" using mset_eq_imp_distinct_iff [OF m] by simp
  show "generate R order = Some (generate_unfiltered order)"
    using generate_eq_unfiltered [OF assms(1), of order] so by (simp add: skipDigits_set)
  show "length (generate_unfiltered order) = 362880 * length (skipDigits R)"
    using generate_unfiltered_length [of order] so lo by auto
  show "distinct (generate_unfiltered order)"
    using generate_unfiltered_distinct [OF d] so by auto
  show "set (generate_unfiltered order) =
           {s. length s = 9 \<and> distinct s \<and> set s \<subseteq> set alphabet \<and> set R \<subseteq> set s}"
  proof (intro set_eqI iffI)
    fix p assume "p \<in> set (generate_unfiltered order)"
    then obtain s where s: "distinct p" "s \<in> set order" "set p = set alphabet - {s}"
      by (auto simp: generate_unfiltered_set)
    have sa: "s \<in> set alphabet" "s \<notin> set R" using s(2) so by auto
    have "mset p = mset (shard_digits s)"
      using s(1,3) shard_digits_props(2,3) [of s] by (metis set_eq_iff_mset_eq_distinct)
    then have "length p = 9" using shard_digits_length [OF sa(1)] by (metis mset_eq_length)
    moreover have "set R \<subseteq> set p" using s(3) sa(2) assms(1) by auto
    ultimately show "p \<in> {s. length s = 9 \<and> distinct s \<and> set s \<subseteq> set alphabet \<and> set R \<subseteq> set s}"
      using s(1,3) by auto
  next
    fix p assume "p \<in> {s. length s = 9 \<and> distinct s \<and> set s \<subseteq> set alphabet \<and> set R \<subseteq> set s}"
    then have p: "length p = 9" "distinct p" "set p \<subseteq> set alphabet" "set R \<subseteq> set p" by auto
    obtain s where s: "s \<in> set alphabet" "set p = set alphabet - {s}"
      using nine_of_ten [OF p(1,2,3)] by blast
    have "s \<notin> set R" using s(2) p(4) by auto
    then have "s \<in> set order" using s(1) so by simp
    then show "p \<in> set (generate_unfiltered order)"
      using p(2) s(2) by (auto simp: generate_unfiltered_set)
  qed
qed

text \<open>
  C4. With the required digits 0, 2 and 5 the generator produces, whatever the order in
  which the threads merge, exactly 7 * 9! = 2540160 strings without repetition: all the
  strings of 9 pairwise distinct digits that contain 0, 2 and 5.
\<close>

theorem generator_count:
  assumes "completion_order main_requiredDigits order"
  shows "\<exists>validNumbers. generate main_requiredDigits order = Some validNumbers
           \<and> length validNumbers = 7 * fact 9
           \<and> length validNumbers = 2540160
           \<and> distinct validNumbers
           \<and> set validNumbers =
               {s. length s = 9 \<and> distinct s \<and> set s \<subseteq> set alphabet
                   \<and> set main_requiredDigits \<subseteq> set s}"
proof -
  have r: "set main_requiredDigits \<subseteq> set alphabet"
    by (simp add: main_requiredDigits_def alphabet_def)
  have f: "fact 9 = (362880::nat)" by (simp add: fact_numeral)
  show ?thesis
    using generate_result [OF r assms] by (simp add: skipDigits_main f)
qed

theorem generator_count_witness:
  "completion_order main_requiredDigits ''9314768''
   \<and> (\<exists>validNumbers. generate main_requiredDigits ''9314768'' = Some validNumbers
         \<and> length validNumbers = 2540160)"
proof -
  have c: "completion_order main_requiredDigits ''9314768''"
    by (simp add: completion_order_def skipDigits_main)
  from generator_count [OF c] c show ?thesis by blast
qed

text \<open>
  C9. For required digits \<open>R\<close> among 0..9 and every skipped digit (a digit not in
  \<open>R\<close>), \<open>containsRequiredDigits\<close> is true on every permutation of the nine other
  digits; so the shard of that digit and the whole generator equal their versions
  without the test.
\<close>

theorem required_filter_redundant:
  assumes "set R \<subseteq> set alphabet"
  shows "(\<forall>s\<in>set (skipDigits R). \<forall>p. mset p = mset (shard_digits s)
            \<longrightarrow> containsRequiredDigits p R = Some True)
         \<and> (\<forall>s\<in>set (skipDigits R). shard R s = Some (shard_unfiltered s))
         \<and> (\<forall>order. completion_order R order
            \<longrightarrow> generate R order = Some (generate_unfiltered order))"
  using shard_eq_unfiltered [OF assms] generate_result(1) [OF assms] by blast

theorem required_filter_redundant_witness:
  "set ''025'' \<subseteq> set alphabet
   \<and> CHR ''8'' \<in> set (skipDigits ''025'')
   \<and> mset ''976543210'' = mset (shard_digits CHR ''8'')
   \<and> containsRequiredDigits ''976543210'' ''025'' = Some True
   \<and> completion_order ''025'' ''1346789''
   \<and> generate ''025'' ''1346789'' = Some (generate_unfiltered ''1346789'')"
proof -
  have r: "set ''025'' \<subseteq> set alphabet" by (simp add: alphabet_def)
  have s: "CHR ''8'' \<in> set (skipDigits ''025'')" by (simp add: skipDigits_def alphabet_def)
  have m: "mset ''976543210'' = mset (shard_digits CHR ''8'')"
    by (simp add: shard_digits_eq alphabet_def)
  have c: "completion_order ''025'' ''1346789''"
    by (simp add: completion_order_def skipDigits_def alphabet_def)
  from required_filter_redundant [OF r] r s m c show ?thesis by blast
qed

section \<open>Properties of the solver\<close>

lemma wf_candidateD:
  assumes "wf_candidate cand"
  shows "length cand = 9" "distinct cand" "c < 9 \<Longrightarrow> 0 \<le> cand ! c \<and> cand ! c \<le> 9"
  using assms by (auto simp: wf_candidate_def list_all_length)

lemma getBoxIndex_less: "r < 9 \<Longrightarrow> c < 9 \<Longrightarrow> getBoxIndex r c < 9"
  unfolding getBoxIndex_def by arith

lemma shl1_small: "0 \<le> d \<Longrightarrow> d \<le> 9 \<Longrightarrow> shl1 d = Some (2 ^ nat d)"
  by (simp add: shl1_def)

lemma mask_digits_or: "0 \<le> d \<Longrightarrow> mask_digits (m OR 2 ^ nat d) = insert d (mask_digits m)"
  by (auto simp: mask_digits_def bit_or_iff bit_single)

lemma mask_digits_test: "0 \<le> d \<Longrightarrow> (m AND 2 ^ nat d = 0) \<longleftrightarrow> d \<notin> mask_digits m"
  by (simp add: mask_digits_def and_single_eq_0)

lemma mask_digits_0: "mask_digits 0 = {}"
  by (simp add: mask_digits_def)

lemma column_conflict_eq:
  assumes "wf_candidate cand" "c < 9"
  shows "column_conflict st r cand c =
           Some (cand ! c \<in> mask_digits (colMask st ! c)
                 \<or> cand ! c \<in> mask_digits (boxMask st ! getBoxIndex r c))"
  using wf_candidateD [OF assms(1)] assms(2)
  by (auto simp: column_conflict_def vector_at_def shl1_small mask_digits_test)

lemma conflict_loop_eq:
  assumes "wf_candidate cand"
  shows "\<forall>c\<in>set cs. c < 9 \<Longrightarrow>
    conflict_loop st r cand cs =
      Some (\<exists>c\<in>set cs. cand ! c \<in> mask_digits (colMask st ! c)
                      \<or> cand ! c \<in> mask_digits (boxMask st ! getBoxIndex r c))"
  by (induction cs) (auto simp: column_conflict_eq [OF assms])

lemma has_conflict_eq:
  assumes "wf_candidate cand"
  shows "has_conflict st r cand =
      Some (\<exists>c<9. cand ! c \<in> mask_digits (colMask st ! c)
                 \<or> cand ! c \<in> mask_digits (boxMask st ! getBoxIndex r c))"
proof -
  let ?P = "\<lambda>c. cand ! c \<in> mask_digits (colMask st ! c)
                 \<or> cand ! c \<in> mask_digits (boxMask st ! getBoxIndex r c)"
  have "(\<exists>c<9. ?P c) \<longleftrightarrow> ?P 0 \<or> ?P 1 \<or> (\<exists>c\<in>set [2..<9]. ?P c)"
  proof -
    have "{..<9::nat} = {0, 1} \<union> set [2..<9]" by auto
    then have "(\<exists>c\<in>{..<9::nat}. ?P c) \<longleftrightarrow> (\<exists>c\<in>{0, 1} \<union> set [2..<9]. ?P c)" by simp
    then show ?thesis by (simp add: Bex_def) blast
  qed
  moreover have "conflict_loop st r cand [2..<9] = Some (\<exists>c\<in>set [2..<9]. ?P c)"
    by (rule conflict_loop_eq [OF assms]) simp
  ultimately show ?thesis
    by (simp add: has_conflict_def column_conflict_eq [OF assms])
qed

lemma place_loop_effect:
  assumes cand: "wf_candidate cand" and r: "r < 9"
  shows "shape st \<Longrightarrow> \<forall>c\<in>set cs. c < 9 \<Longrightarrow>
    \<exists>st'. place_loop st r cand cs = Some st' \<and> shape st'
      \<and> (\<forall>c<9. mask_digits (colMask st' ! c)
                   = mask_digits (colMask st ! c) \<union> (if c \<in> set cs then {cand ! c} else {}))
      \<and> (\<forall>b<9. mask_digits (boxMask st' ! b)
                   = mask_digits (boxMask st ! b) \<union> {cand ! c |c. c \<in> set cs \<and> getBoxIndex r c = b})
      \<and> (\<forall>r'<9. r' \<noteq> r \<longrightarrow> solution st' ! r' = solution st ! r')
      \<and> (\<forall>c<9. solution st' ! r ! c = (if c \<in> set cs then cand ! c else solution st ! r ! c))
      \<and> allSolutions st' = allSolutions st \<and> candidateTries st' = candidateTries st"
proof (induction cs arbitrary: st)
  case Nil
  then show ?case by simp
next
  case (Cons c cs)
  have c: "c < 9" and cs: "\<forall>c\<in>set cs. c < 9" using Cons.prems(2) by simp_all
  have d: "0 \<le> cand ! c" "cand ! c \<le> 9" using wf_candidateD(3) [OF cand c] by simp_all
  have len: "length cand = 9" using wf_candidateD(1) [OF cand] .
  have sh: "length (colMask st) = 9" "length (boxMask st) = 9" "length (solution st) = 9"
    "\<forall>row\<in>set (solution st). length row = 9"
    using Cons.prems(1) by (simp_all add: shape_def)
  have rowlen: "length (solution st ! r) = 9" using sh(3,4) r by simp
  let ?b = "getBoxIndex r c"
  have b: "?b < 9" using getBoxIndex_less [OF r c] .
  let ?st1 = "st\<lparr>colMask := (colMask st)[c := colMask st ! c OR 2 ^ nat (cand ! c)],
                  boxMask := (boxMask st)[?b := boxMask st ! ?b OR 2 ^ nat (cand ! c)],
                  solution := (solution st)[r := (solution st ! r)[c := cand ! c]]\<rparr>"
  have sh1: "shape ?st1"
    using sh rowlen by (auto simp: shape_def dest!: set_update_subset_insert [THEN subsetD])
  obtain st' where st': "place_loop ?st1 r cand cs = Some st'" "shape st'"
    "\<forall>c'<9. mask_digits (colMask st' ! c')
        = mask_digits (colMask ?st1 ! c') \<union> (if c' \<in> set cs then {cand ! c'} else {})"
    "\<forall>b<9. mask_digits (boxMask st' ! b)
        = mask_digits (boxMask ?st1 ! b) \<union> {cand ! c' |c'. c' \<in> set cs \<and> getBoxIndex r c' = b}"
    "\<forall>r'<9. r' \<noteq> r \<longrightarrow> solution st' ! r' = solution ?st1 ! r'"
    "\<forall>c'<9. solution st' ! r ! c' = (if c' \<in> set cs then cand ! c' else solution ?st1 ! r ! c')"
    "allSolutions st' = allSolutions ?st1" "candidateTries st' = candidateTries ?st1"
    using Cons.IH [OF sh1 cs] by blast
  have run: "place_loop st r cand (c # cs) = Some st'"
    using st'(1) c len d by (simp add: vector_at_def shl1_small)
  have col: "mask_digits (colMask st' ! c')
        = mask_digits (colMask st ! c') \<union> (if c' \<in> set (c # cs) then {cand ! c'} else {})"
    if "c' < 9" for c'
    using st'(3) that sh(1) c d(1) by (cases "c' = c") (auto simp: mask_digits_or)
  have bx: "mask_digits (boxMask st' ! b')
        = mask_digits (boxMask st ! b') \<union> {cand ! c' |c'. c' \<in> set (c # cs) \<and> getBoxIndex r c' = b'}"
    if "b' < 9" for b'
  proof (cases "b' = ?b")
    case True
    have "mask_digits (boxMask ?st1 ! b') = insert (cand ! c) (mask_digits (boxMask st ! b'))"
      using True sh(2) b d(1) by (simp add: mask_digits_or)
    then show ?thesis using st'(4) that True by auto
  next
    case False
    have "mask_digits (boxMask ?st1 ! b') = mask_digits (boxMask st ! b')"
      using False by simp
    then show ?thesis using st'(4) that False by auto
  qed
  have other: "solution st' ! r' = solution st ! r'" if "r' < 9" "r' \<noteq> r" for r'
    using st'(5) that by simp
  have row: "solution st' ! r ! c' = (if c' \<in> set (c # cs) then cand ! c' else solution st ! r ! c')"
    if "c' < 9" for c'
    using st'(6) that sh(3) r rowlen c by (cases "c' = c") auto
  show ?case
    using run st'(2,7,8) col bx other row by simp
qed

lemma rowOrder_props:
  "length rowOrder = 9" "distinct rowOrder"
  "i < 9 \<Longrightarrow> rowOrder ! i < 9"
  "i < 9 \<Longrightarrow> row_pos ! (rowOrder ! i) = i"
  "r < 9 \<Longrightarrow> row_pos ! r < 9"
  "r < 9 \<Longrightarrow> rowOrder ! (row_pos ! r) = r"
proof -
  have nine: "\<And>P. (\<forall>i<9::nat. P i) \<longleftrightarrow> P 0 \<and> P 1 \<and> P 2 \<and> P 3 \<and> P 4 \<and> P 5 \<and> P 6 \<and> P 7 \<and> P 8"
    by (simp add: eval_nat_numeral All_less_Suc) blast
  show "length rowOrder = 9" "distinct rowOrder" by (simp_all add: rowOrder_def)
  have "\<forall>i<9. rowOrder ! i < 9 \<and> row_pos ! (rowOrder ! i) = i"
    unfolding nine by (simp add: rowOrder_def row_pos_def)
  then show "i < 9 \<Longrightarrow> rowOrder ! i < 9" "i < 9 \<Longrightarrow> row_pos ! (rowOrder ! i) = i" by simp_all
  have "\<forall>r<9. row_pos ! r < 9 \<and> rowOrder ! (row_pos ! r) = r"
    unfolding nine by (simp add: rowOrder_def row_pos_def)
  then show "r < 9 \<Longrightarrow> row_pos ! r < 9" "r < 9 \<Longrightarrow> rowOrder ! (row_pos ! r) = r" by simp_all
qed

lemma col_digits_snoc: "col_digits (path @ [cand]) c = insert (cand ! c) (col_digits path c)"
  by (auto simp: col_digits_def)

lemma box_digits_snoc:
  "box_digits (path @ [cand]) b =
     box_digits path b \<union> {cand ! c |c. c < 9 \<and> getBoxIndex (rowOrder ! length path) c = b}"
  (is "?L = ?A \<union> ?B")
proof (intro equalityI subsetI)
  fix d assume "d \<in> ?L"
  then obtain i c where ic: "d = (path @ [cand]) ! i ! c" "i < Suc (length path)" "c < 9"
    "getBoxIndex (rowOrder ! i) c = b"
    by (auto simp: box_digits_def)
  show "d \<in> ?A \<union> ?B"
  proof (cases "i < length path")
    case True
    then have "d \<in> ?A" using ic by (auto simp: box_digits_def nth_append)
    then show ?thesis by simp
  next
    case False
    then have "i = length path" using ic(2) by simp
    then have "d \<in> ?B" using ic by auto
    then show ?thesis by simp
  qed
next
  fix d assume "d \<in> ?A \<union> ?B"
  then show "d \<in> ?L"
  proof
    assume "d \<in> ?A"
    then obtain i c where "d = path ! i ! c" "i < length path" "c < 9"
      "getBoxIndex (rowOrder ! i) c = b"
      by (auto simp: box_digits_def)
    then have "d = (path @ [cand]) ! i ! c \<and> i < length (path @ [cand]) \<and> c < 9
                 \<and> getBoxIndex (rowOrder ! i) c = b"
      by (simp add: nth_append)
    then show ?thesis unfolding box_digits_def by blast
  next
    assume "d \<in> ?B"
    then obtain c where "d = cand ! c" "c < 9" "getBoxIndex (rowOrder ! length path) c = b"
      by auto
    then have "d = (path @ [cand]) ! length path ! c \<and> length path < length (path @ [cand])
                 \<and> c < 9 \<and> getBoxIndex (rowOrder ! length path) c = b"
      by simp
    then show ?thesis unfolding box_digits_def by blast
  qed
qed

lemma inv_initial: "inv [] initial_state"
proof -
  have "c < 9 \<Longrightarrow> replicate 9 (0::int) ! c = 0" for c by simp
  then show ?thesis
    by (simp add: inv_def shape_def initial_state_def col_digits_def box_digits_def mask_digits_0)
qed

lemma inv_tries: "inv path (st\<lparr>candidateTries := n\<rparr>) = inv path st"
  by (simp add: inv_def shape_def)

lemma has_conflict_clash:
  assumes "wf_candidate cand" "inv path st" "length path < 9"
  shows "has_conflict st (rowOrder ! length path) cand = Some (clash path cand)"
proof -
  have r: "rowOrder ! length path < 9" using rowOrder_props(3) assms(3) by simp
  have "(\<exists>c<9. cand ! c \<in> mask_digits (colMask st ! c)
                 \<or> cand ! c \<in> mask_digits (boxMask st ! getBoxIndex (rowOrder ! length path) c))
        \<longleftrightarrow> clash path cand"
    unfolding clash_def using assms(2) getBoxIndex_less [OF r] by (auto simp: inv_def)
  then show ?thesis by (simp add: has_conflict_eq [OF assms(1)])
qed

lemma place_inv:
  assumes cand: "wf_candidate cand" and i: "inv path st" and n: "length path < 9"
  shows "\<exists>st'. place_loop st (rowOrder ! length path) cand [0..<9] = Some st'
           \<and> inv (path @ [cand]) st' \<and> allSolutions st' = allSolutions st"
proof -
  let ?r = "rowOrder ! length path"
  have r: "?r < 9" using rowOrder_props(3) n by simp
  have sh: "shape st" using i by (simp add: inv_def)
  obtain st' where st': "place_loop st ?r cand [0..<9] = Some st'" "shape st'"
    "\<forall>c<9. mask_digits (colMask st' ! c)
        = mask_digits (colMask st ! c) \<union> (if c \<in> set [0..<9] then {cand ! c} else {})"
    "\<forall>b<9. mask_digits (boxMask st' ! b)
        = mask_digits (boxMask st ! b) \<union> {cand ! c |c. c \<in> set [0..<9] \<and> getBoxIndex ?r c = b}"
    "\<forall>r'<9. r' \<noteq> ?r \<longrightarrow> solution st' ! r' = solution st ! r'"
    "\<forall>c<9. solution st' ! ?r ! c = (if c \<in> set [0..<9] then cand ! c else solution st ! ?r ! c)"
    "allSolutions st' = allSolutions st"
    using place_loop_effect [OF cand r sh, of "[0..<9]"] by auto
  have cols: "\<forall>c<9. mask_digits (colMask st' ! c) = col_digits (path @ [cand]) c"
    using st'(3) i by (simp add: inv_def col_digits_snoc)
  have boxes: "\<forall>b<9. mask_digits (boxMask st' ! b) = box_digits (path @ [cand]) b"
    using st'(4) i by (simp add: inv_def box_digits_snoc)
  have "length (solution st' ! ?r) = 9" using st'(2) r by (simp add: shape_def)
  then have here: "solution st' ! ?r = cand"
    using st'(6) wf_candidateD(1) [OF cand] by (intro nth_equalityI) simp_all
  have "solution st' ! (rowOrder ! j) = (path @ [cand]) ! j" if j: "j < length (path @ [cand])" for j
  proof (cases "j = length path")
    case True
    then show ?thesis using here by simp
  next
    case False
    then have jl: "j < length path" using j by simp
    then have "rowOrder ! j \<noteq> ?r"
      using rowOrder_props(1,2) n by (simp add: nth_eq_iff_index_eq)
    moreover have "rowOrder ! j < 9" using rowOrder_props(3) jl n by simp
    ultimately have "solution st' ! (rowOrder ! j) = solution st ! (rowOrder ! j)"
      using st'(5) by simp
    then show ?thesis using i jl by (simp add: inv_def nth_append)
  qed
  then show ?thesis using st'(1,2,7) cols boxes by (auto simp: inv_def)
qed

lemma restore_inv:
  assumes "inv (path @ [cand]) st3" "inv path st"
  shows "inv path (st3\<lparr>colMask := colMask st, boxMask := boxMask st\<rparr>)"
  using assms by (auto simp: inv_def shape_def nth_append)

lemma completions_full:
  "length path = 9 \<Longrightarrow> completions candidates path = {path}"
  by (auto simp: completions_def)

lemma completions_step:
  assumes "length path < 9"
  shows "completions candidates path =
     (\<Union>cand\<in>{cand \<in> set (candidates ! (rowOrder ! length path)). \<not> clash path cand}.
         completions candidates (path @ [cand]))"
  (is "?L = ?R")
proof (intro equalityI subsetI)
  fix full assume "full \<in> ?L"
  then have f: "length full = 9" "take (length path) full = path"
    "\<forall>i<9. length path \<le> i \<longrightarrow>
        full ! i \<in> set (candidates ! (rowOrder ! i)) \<and> \<not> clash (take i full) (full ! i)"
    by (auto simp: completions_def)
  let ?cand = "full ! length path"
  have t: "take (Suc (length path)) full = path @ [?cand]"
    using f(1,2) assms by (simp add: take_Suc_conv_app_nth)
  have "?cand \<in> set (candidates ! (rowOrder ! length path))" "\<not> clash path ?cand"
    using f(2,3) assms by auto
  moreover have "full \<in> completions candidates (path @ [?cand])"
    using f t by (simp add: completions_def)
  ultimately show "full \<in> ?R" by blast
next
  fix full assume "full \<in> ?R"
  then obtain cand where c: "cand \<in> set (candidates ! (rowOrder ! length path))"
    "\<not> clash path cand" "full \<in> completions candidates (path @ [cand])"
    by blast
  have f: "length full = 9" "take (Suc (length path)) full = path @ [cand]"
    "\<forall>i<9. Suc (length path) \<le> i \<longrightarrow>
        full ! i \<in> set (candidates ! (rowOrder ! i)) \<and> \<not> clash (take i full) (full ! i)"
    using c(3) by (auto simp: completions_def)
  have "take (Suc (length path)) full = take (length path) full @ [full ! length path]"
    using f(1) assms by (simp add: take_Suc_conv_app_nth)
  then have t: "take (length path) full = path" "full ! length path = cand"
    using f(2) by simp_all
  have "full ! i \<in> set (candidates ! (rowOrder ! i)) \<and> \<not> clash (take i full) (full ! i)"
    if "i < 9" "length path \<le> i" for i
  proof (cases "i = length path")
    case True
    then show ?thesis using t c(1,2) by simp
  next
    case False
    then show ?thesis using f(3) that by simp
  qed
  then show "full \<in> ?L" using f(1) t(1) by (simp add: completions_def)
qed

lemma found_step:
  assumes "length path < 9"
  shows "found candidates path =
     (\<Union>cand\<in>set (candidates ! (rowOrder ! length path)).
         if clash path cand then {} else found candidates (path @ [cand]))"
  unfolding found_def completions_step [OF assms] by auto

lemma inv_full_solution:
  assumes "inv path st" "length path = 9"
  shows "solution st = grid_of path"
proof (rule nth_equalityI)
  show "length (solution st) = length (grid_of path)"
    using assms(1) by (simp add: inv_def shape_def grid_of_def)
next
  fix r assume "r < length (solution st)"
  then have r: "r < 9" using assms(1) by (simp add: inv_def shape_def)
  have "solution st ! (rowOrder ! (row_pos ! r)) = path ! (row_pos ! r)"
    using assms rowOrder_props(5) [OF r] by (simp add: inv_def)
  then show "solution st ! r = grid_of path ! r"
    using rowOrder_props(6) [OF r] r by (simp add: grid_of_def)
qed

lemma tryCandidate_correct:
  assumes cand: "wf_candidate cand" and i: "inv path st" and n: "length path < 9"
    and nxt: "\<And>st2. inv (path @ [cand]) st2 \<Longrightarrow>
        \<exists>st3. solveNext st2 = Some st3 \<and> inv (path @ [cand]) st3
             \<and> set (allSolutions st3) = set (allSolutions st2) \<union> E"
  shows "\<exists>st'. tryCandidate solveNext (rowOrder ! length path) cand st = Some st'
           \<and> inv path st'
           \<and> set (allSolutions st') = set (allSolutions st) \<union> (if clash path cand then {} else E)"
proof -
  let ?st1 = "st\<lparr>candidateTries := candidateTries st + 1\<rparr>"
  have i1: "inv path ?st1" using i by (simp add: inv_tries)
  have hc: "has_conflict ?st1 (rowOrder ! length path) cand = Some (clash path cand)"
    using has_conflict_clash [OF cand i1 n] .
  show ?thesis
  proof (cases "clash path cand")
    case True
    then show ?thesis using hc i1 by (simp add: tryCandidate_def)
  next
    case False
    obtain st2 where st2: "place_loop ?st1 (rowOrder ! length path) cand [0..<9] = Some st2"
      "inv (path @ [cand]) st2" "allSolutions st2 = allSolutions ?st1"
      using place_inv [OF cand i1 n] by blast
    obtain st3 where st3: "solveNext st2 = Some st3" "inv (path @ [cand]) st3"
      "set (allSolutions st3) = set (allSolutions st2) \<union> E"
      using nxt [OF st2(2)] by blast
    let ?st4 = "st3\<lparr>colMask := colMask ?st1, boxMask := boxMask ?st1\<rparr>"
    have "tryCandidate solveNext (rowOrder ! length path) cand st = Some ?st4"
      using hc False st2(1) st3(1) by (simp add: tryCandidate_def)
    moreover have "inv path ?st4" using restore_inv [OF st3(2) i1] .
    moreover have "set (allSolutions ?st4) = set (allSolutions st) \<union> E"
      using st3(3) st2(3) by simp
    ultimately show ?thesis using False by simp
  qed
qed

lemma tryCandidates_correct:
  assumes n: "length path < 9"
    and nxt: "\<And>cand st2. cand \<in> set cands \<Longrightarrow> inv (path @ [cand]) st2 \<Longrightarrow>
        \<exists>st3. solveNext st2 = Some st3 \<and> inv (path @ [cand]) st3
             \<and> set (allSolutions st3) = set (allSolutions st2) \<union> E cand"
  shows "\<forall>cand\<in>set cands. wf_candidate cand \<Longrightarrow> inv path st \<Longrightarrow>
    \<exists>st'. tryCandidates solveNext (rowOrder ! length path) cands st = Some st'
         \<and> inv path st'
         \<and> set (allSolutions st') =
             set (allSolutions st) \<union> (\<Union>cand\<in>set cands. if clash path cand then {} else E cand)"
  using nxt
proof (induction cands arbitrary: st)
  case Nil
  then show ?case by simp
next
  case (Cons cand cands)
  have wf: "wf_candidate cand" "\<forall>cand\<in>set cands. wf_candidate cand"
    using Cons.prems(1) by simp_all
  have n1: "\<exists>st3. solveNext st2 = Some st3 \<and> inv (path @ [cand]) st3
             \<and> set (allSolutions st3) = set (allSolutions st2) \<union> E cand"
    if "inv (path @ [cand]) st2" for st2
    using Cons.prems(3) [OF list.set_intros(1) that] .
  have n2: "\<exists>st3. solveNext st2 = Some st3 \<and> inv (path @ [c]) st3
             \<and> set (allSolutions st3) = set (allSolutions st2) \<union> E c"
    if "c \<in> set cands" "inv (path @ [c]) st2" for c st2
    using Cons.prems(3) [OF list.set_intros(2) that(2)] that(1) .
  obtain st1 where st1: "tryCandidate solveNext (rowOrder ! length path) cand st = Some st1"
    "inv path st1"
    "set (allSolutions st1) = set (allSolutions st) \<union> (if clash path cand then {} else E cand)"
    using tryCandidate_correct [OF wf(1) Cons.prems(2) n n1] by blast
  obtain st' where st': "tryCandidates solveNext (rowOrder ! length path) cands st1 = Some st'"
    "inv path st'"
    "set (allSolutions st') =
       set (allSolutions st1) \<union> (\<Union>cand\<in>set cands. if clash path cand then {} else E cand)"
    using Cons.IH [OF wf(2) st1(2) n2] by blast
  show ?case using st1(1) st'(1,2) by (simp add: st'(3) st1(3) Un_assoc)
qed

lemma solveFixed_correct:
  assumes wf: "wf_candidates candidates"
  shows "length path = pos \<Longrightarrow> pos \<le> 9 \<Longrightarrow> inv path st \<Longrightarrow>
    \<exists>st'. solveFixed candidates pos st = Some st' \<and> inv path st'
         \<and> set (allSolutions st') = set (allSolutions st) \<union> found candidates path"
proof (induction "9 - pos" arbitrary: pos path st)
  case 0
  then have p: "pos = 9" "length path = 9" by simp_all
  have s: "solution st = grid_of path" using inv_full_solution [OF "0.prems"(3) p(2)] .
  have f: "found candidates path = (if hasZeroInFirstColumns (grid_of path) then {grid_of path} else {})"
    by (auto simp: found_def completions_full [OF p(2)])
  have "inv path (st\<lparr>allSolutions := a\<rparr>)" for a
    using "0.prems"(3) by (simp add: inv_def shape_def)
  then show ?case
    using "0.prems"(3) by (subst solveFixed.simps) (simp add: p s f)
next
  case (Suc k)
  then have n: "length path < 9" "pos < 9" "pos \<noteq> 9" by simp_all
  let ?r = "rowOrder ! pos"
  have r: "?r < 9" using rowOrder_props(3) n(2) by simp
  have va: "vector_at rowOrder pos = Some ?r"
    using n(2) by (simp add: vector_at_def rowOrder_props(1))
  have vc: "vector_at candidates ?r = Some (candidates ! ?r)"
    using wf r by (simp add: vector_at_def wf_candidates_def)
  have wfc: "\<forall>cand\<in>set (candidates ! ?r). wf_candidate cand"
    using wf r by (auto simp: wf_candidates_def list_all_length in_set_conv_nth)
  have nxt: "\<exists>st3. solveFixed candidates (pos + 1) st2 = Some st3 \<and> inv (path @ [cand]) st3
             \<and> set (allSolutions st3) = set (allSolutions st2) \<union> found candidates (path @ [cand])"
    if "cand \<in> set (candidates ! ?r)" "inv (path @ [cand]) st2" for cand st2
    using Suc.hyps(1) [of "pos + 1" "path @ [cand]" st2] Suc.hyps(2) Suc.prems(1) n that(2)
    by simp
  obtain st' where st': "tryCandidates (solveFixed candidates (pos + 1)) ?r (candidates ! ?r) st = Some st'"
    "inv path st'"
    "set (allSolutions st') = set (allSolutions st) \<union>
       (\<Union>cand\<in>set (candidates ! ?r). if clash path cand then {} else found candidates (path @ [cand]))"
    using tryCandidates_correct [OF n(1), of "candidates ! ?r" "solveFixed candidates (pos + 1)"
        "\<lambda>cand. found candidates (path @ [cand])" st] nxt wfc Suc.prems(1,3)
    by blast
  have "solveFixed candidates pos st = Some st'"
    using st'(1) n(3) va vc by (subst solveFixed.simps) simp
  then show ?case
    using st'(2,3) found_step [OF n(1), of candidates] Suc.prems(1) by simp
qed

lemma all_less_9:
  "(\<forall>i<9::nat. P i) \<longleftrightarrow> P 0 \<and> P 1 \<and> P 2 \<and> P 3 \<and> P 4 \<and> P 5 \<and> P 6 \<and> P 7 \<and> P 8"
  by (simp add: eval_nat_numeral All_less_Suc) blast

lemma box_cell:
  assumes "b < 9" "k < 9"
  shows "3 * (b div 3) + k div 3 < 9" "3 * (b mod 3) + k mod 3 < 9"
    "getBoxIndex (3 * (b div 3) + k div 3) (3 * (b mod 3) + k mod 3) = b"
    "3 * ((3 * (b div 3) + k div 3) mod 3) + (3 * (b mod 3) + k mod 3) mod 3 = k"
proof -
  have "\<forall>b<9. \<forall>k<9. 3 * (b div 3) + k div 3 < 9 \<and> 3 * (b mod 3) + k mod 3 < 9
      \<and> getBoxIndex (3 * (b div 3) + k div 3) (3 * (b mod 3) + k mod 3) = b
      \<and> 3 * ((3 * (b div 3) + k div 3) mod 3) + (3 * (b mod 3) + k mod 3) mod 3 = k"
    unfolding all_less_9 by (simp add: getBoxIndex_def)
  then show "3 * (b div 3) + k div 3 < 9" "3 * (b mod 3) + k mod 3 < 9"
    "getBoxIndex (3 * (b div 3) + k div 3) (3 * (b mod 3) + k mod 3) = b"
    "3 * ((3 * (b div 3) + k div 3) mod 3) + (3 * (b mod 3) + k mod 3) mod 3 = k"
    using assms by simp_all
qed

lemma cell_box:
  assumes "r < 9" "c < 9"
  shows "3 * (r mod 3) + c mod 3 < 9"
    "3 * (getBoxIndex r c div 3) + (3 * (r mod 3) + c mod 3) div 3 = r"
    "3 * (getBoxIndex r c mod 3) + (3 * (r mod 3) + c mod 3) mod 3 = c"
proof -
  have "\<forall>r<9. \<forall>c<9. 3 * (r mod 3) + c mod 3 < 9
      \<and> 3 * (getBoxIndex r c div 3) + (3 * (r mod 3) + c mod 3) div 3 = r
      \<and> 3 * (getBoxIndex r c mod 3) + (3 * (r mod 3) + c mod 3) mod 3 = c"
    unfolding all_less_9 by (simp add: getBoxIndex_def)
  then show "3 * (r mod 3) + c mod 3 < 9"
    "3 * (getBoxIndex r c div 3) + (3 * (r mod 3) + c mod 3) div 3 = r"
    "3 * (getBoxIndex r c mod 3) + (3 * (r mod 3) + c mod 3) mod 3 = c"
    using assms by simp_all
qed

lemma distinct_map_upt:
  "distinct (map f [0..<n]) \<longleftrightarrow> (\<forall>i<n. \<forall>j<n. i \<noteq> j \<longrightarrow> f i \<noteq> f j)"
proof -
  have "distinct (map f [0..<n]) \<longleftrightarrow> inj_on f {0..<n}" by (simp add: distinct_map)
  also have "\<dots> \<longleftrightarrow> (\<forall>i<n. \<forall>j<n. i \<noteq> j \<longrightarrow> f i \<noteq> f j)"
  proof
    assume "inj_on f {0..<n}"
    then show "\<forall>i<n. \<forall>j<n. i \<noteq> j \<longrightarrow> f i \<noteq> f j"
      by (meson atLeastLessThan_iff inj_onD zero_le)
  next
    assume a: "\<forall>i<n. \<forall>j<n. i \<noteq> j \<longrightarrow> f i \<noteq> f j"
    show "inj_on f {0..<n}"
    proof (rule inj_onI)
      fix x y assume "x \<in> {0..<n}" "y \<in> {0..<n}" "f x = f y"
      then show "x = y" using a by (cases "x = y") auto
    qed
  qed
  finally show ?thesis .
qed

lemma box_pair:
  assumes d: "distinct (grid_box g (getBoxIndex r1 c1))"
    and h: "r1 < 9" "c1 < 9" "r2 < 9" "c2 < 9" "r1 \<noteq> r2"
      "getBoxIndex r1 c1 = getBoxIndex r2 c2"
  shows "g ! r1 ! c1 \<noteq> g ! r2 ! c2"
proof -
  define b where "b = getBoxIndex r1 c1"
  define k1 where "k1 = 3 * (r1 mod 3) + c1 mod 3"
  define k2 where "k2 = 3 * (r2 mod 3) + c2 mod 3"
  have b2: "b = getBoxIndex r2 c2" using h(6) by (simp only: b_def)
  have b: "b < 9" unfolding b_def by (rule getBoxIndex_less [OF h(1,2)])
  have k: "k1 < 9" "k2 < 9"
    unfolding k1_def k2_def by (rule cell_box(1) [OF h(1,2)], rule cell_box(1) [OF h(3,4)])
  have R1: "3 * (b div 3) + k1 div 3 = r1" and C1: "3 * (b mod 3) + k1 mod 3 = c1"
    unfolding b_def k1_def by (rule cell_box(2) [OF h(1,2)], rule cell_box(3) [OF h(1,2)])
  have R2: "3 * (b div 3) + k2 div 3 = r2" and C2: "3 * (b mod 3) + k2 mod 3 = c2"
    unfolding b2 k2_def by (rule cell_box(2) [OF h(3,4)], rule cell_box(3) [OF h(3,4)])
  have ne: "k1 \<noteq> k2"
  proof
    assume "k1 = k2"
    then have "r1 = r2" using R1 R2 by (simp only:)
    then show False using h(5) by simp
  qed
  have "distinct (grid_box g b)" using d by (simp only: b_def)
  then have "\<forall>i<9. \<forall>j<9. i \<noteq> j \<longrightarrow>
      g ! (3 * (b div 3) + i div 3) ! (3 * (b mod 3) + i mod 3)
        \<noteq> g ! (3 * (b div 3) + j div 3) ! (3 * (b mod 3) + j mod 3)"
    unfolding grid_box_def distinct_map_upt .
  then have "g ! (3 * (b div 3) + k1 div 3) ! (3 * (b mod 3) + k1 mod 3)
        \<noteq> g ! (3 * (b div 3) + k2 div 3) ! (3 * (b mod 3) + k2 mod 3)"
    using k ne by blast
  then show ?thesis unfolding R1 C1 R2 C2 .
qed

lemma grid_ok_box:
  assumes ok: "grid_ok g" and rows: "\<forall>r<9. length (g ! r) = 9 \<and> distinct (g ! r)"
    and b: "b < 9"
  shows "distinct (grid_box g b)"
  unfolding grid_box_def distinct_map_upt
proof (intro allI impI)
  fix k1 k2 :: nat assume k: "k1 < 9" "k2 < 9" "k1 \<noteq> k2"
  define r1 where "r1 = 3 * (b div 3) + k1 div 3"
  define c1 where "c1 = 3 * (b mod 3) + k1 mod 3"
  define r2 where "r2 = 3 * (b div 3) + k2 div 3"
  define c2 where "c2 = 3 * (b mod 3) + k2 mod 3"
  have p1: "r1 < 9" "c1 < 9" "getBoxIndex r1 c1 = b" "3 * (r1 mod 3) + c1 mod 3 = k1"
    unfolding r1_def c1_def by (rule box_cell [OF b k(1)])+
  have p2: "r2 < 9" "c2 < 9" "getBoxIndex r2 c2 = b" "3 * (r2 mod 3) + c2 mod 3 = k2"
    unfolding r2_def c2_def by (rule box_cell [OF b k(2)])+
  have "g ! r1 ! c1 \<noteq> g ! r2 ! c2"
  proof (cases "r1 = r2")
    case True
    have "c1 \<noteq> c2"
    proof
      assume "c1 = c2"
      then have "k1 = k2" using p1(4) p2(4) True by (simp only:)
      then show False using k(3) by simp
    qed
    moreover have "length (g ! r2) = 9" "distinct (g ! r2)" using rows p2(1) by simp_all
    ultimately show ?thesis using True p1(2) p2(2) by (simp add: nth_eq_iff_index_eq)
  next
    case False
    then show ?thesis using ok p1(1,2,3) p2(1,2,3) unfolding grid_ok_def by metis
  qed
  then show "g ! (3 * (b div 3) + k1 div 3) ! (3 * (b mod 3) + k1 mod 3)
        \<noteq> g ! (3 * (b div 3) + k2 div 3) ! (3 * (b mod 3) + k2 mod 3)"
    unfolding r1_def c1_def r2_def c2_def .
qed

lemma columns_boxes_grid_ok:
  assumes rows: "\<forall>r<9. length (g ! r) = 9 \<and> distinct (g ! r)"
  shows "(\<forall>c<9. distinct (grid_column g c)) \<and> (\<forall>b<9. distinct (grid_box g b)) \<longleftrightarrow> grid_ok g"
proof
  assume a: "(\<forall>c<9. distinct (grid_column g c)) \<and> (\<forall>b<9. distinct (grid_box g b))"
  show "grid_ok g"
    unfolding grid_ok_def
  proof (intro allI impI)
    fix r1 r2 c1 c2 :: nat
    assume h: "r1 < 9" "r2 < 9" "r1 \<noteq> r2" "c1 < 9" "c2 < 9"
      "c1 = c2 \<or> getBoxIndex r1 c1 = getBoxIndex r2 c2"
    from h(6) show "g ! r1 ! c1 \<noteq> g ! r2 ! c2"
    proof
      assume "c1 = c2"
      moreover have "distinct (grid_column g c2)" using a h(5) by simp
      ultimately show ?thesis
        using h(1,2,3) by (simp add: grid_column_def distinct_map_upt)
    next
      assume e: "getBoxIndex r1 c1 = getBoxIndex r2 c2"
      have "getBoxIndex r1 c1 < 9" by (rule getBoxIndex_less [OF h(1,4)])
      then have "distinct (grid_box g (getBoxIndex r1 c1))" using a by simp
      then show ?thesis by (rule box_pair [OF _ h(1,4,2,5,3) e])
    qed
  qed
next
  assume ok: "grid_ok g"
  have "distinct (grid_column g c)" if "c < 9" for c
    unfolding grid_column_def distinct_map_upt
    using ok that unfolding grid_ok_def by blast
  then show "(\<forall>c<9. distinct (grid_column g c)) \<and> (\<forall>b<9. distinct (grid_box g b))"
    using grid_ok_box [OF ok rows] by simp
qed

lemma clash_take:
  assumes "length full = 9" "j < 9"
  shows "clash (take j full) (full ! j) \<longleftrightarrow>
     (\<exists>i<j. \<exists>c<9. \<exists>c'<9. (c' = c \<or> getBoxIndex (rowOrder ! i) c' = getBoxIndex (rowOrder ! j) c)
                          \<and> full ! i ! c' = full ! j ! c)"
  (is "?L \<longleftrightarrow> ?R")
proof -
  have len: "length (take j full) = j" using assms by simp
  have st: "set (take j full) = nth full ` {0..<j}"
    using assms by (simp add: nth_image)
  have col: "col_digits (take j full) c = {full ! i ! c |i. i < j}" for c
    unfolding col_digits_def st by auto
  have bx: "box_digits (take j full) b
              = {full ! i ! c' |i c'. i < j \<and> c' < 9 \<and> getBoxIndex (rowOrder ! i) c' = b}" for b
  proof -
    have "{take j full ! i ! c |i c. i < j \<and> c < 9 \<and> getBoxIndex (rowOrder ! i) c = b}
          = {full ! i ! c |i c. i < j \<and> c < 9 \<and> getBoxIndex (rowOrder ! i) c = b}"
      by (intro Collect_cong ex_cong1 ex_cong) auto
    then show ?thesis unfolding box_digits_def len .
  qed
  show ?thesis
  proof
    assume ?L
    then obtain c where c: "c < 9"
      "full ! j ! c \<in> col_digits (take j full) c
         \<or> full ! j ! c \<in> box_digits (take j full) (getBoxIndex (rowOrder ! j) c)"
      unfolding clash_def len by blast
    from c(2) show ?R
    proof
      assume "full ! j ! c \<in> col_digits (take j full) c"
      then obtain i where "i < j" "full ! j ! c = full ! i ! c" unfolding col by blast
      then show ?R using c(1) by metis
    next
      assume "full ! j ! c \<in> box_digits (take j full) (getBoxIndex (rowOrder ! j) c)"
      then obtain i c' where "i < j" "c' < 9"
        "getBoxIndex (rowOrder ! i) c' = getBoxIndex (rowOrder ! j) c" "full ! j ! c = full ! i ! c'"
        unfolding bx by blast
      then show ?R using c(1) by metis
    qed
  next
    assume ?R
    then obtain i c c' where h: "i < j" "c < 9" "c' < 9"
      "c' = c \<or> getBoxIndex (rowOrder ! i) c' = getBoxIndex (rowOrder ! j) c"
      "full ! i ! c' = full ! j ! c"
      by blast
    from h(4) have "full ! j ! c \<in> col_digits (take j full) c
         \<or> full ! j ! c \<in> box_digits (take j full) (getBoxIndex (rowOrder ! j) c)"
    proof
      assume "c' = c"
      then have "full ! j ! c \<in> col_digits (take j full) c"
        unfolding col using h(1,5) by (intro CollectI exI [of _ i]) simp
      then show ?thesis by simp
    next
      assume "getBoxIndex (rowOrder ! i) c' = getBoxIndex (rowOrder ! j) c"
      then have "full ! j ! c \<in> box_digits (take j full) (getBoxIndex (rowOrder ! j) c)"
        unfolding bx using h(1,3,5) by (intro CollectI exI [of _ i] exI [of _ c']) simp
      then show ?thesis by simp
    qed
    then show ?L unfolding clash_def len using h(2) by blast
  qed
qed

lemma grid_of_nth: "r < 9 \<Longrightarrow> grid_of full ! r = full ! (row_pos ! r)"
  by (simp add: grid_of_def)

lemma no_clash_grid_ok:
  assumes len: "length full = 9"
  shows "(\<forall>j<9. \<not> clash (take j full) (full ! j)) \<longleftrightarrow> grid_ok (grid_of full)"
proof
  assume a: "\<forall>j<9. \<not> clash (take j full) (full ! j)"
  have low: "full ! i ! c' \<noteq> full ! j ! c"
    if "i < j" "j < 9" "c < 9" "c' < 9"
      "c' = c \<or> getBoxIndex (rowOrder ! i) c' = getBoxIndex (rowOrder ! j) c" for i j c c'
    using a that clash_take [OF len that(2)] by blast
  show "grid_ok (grid_of full)"
    unfolding grid_ok_def
  proof (intro allI impI)
    fix r1 r2 c1 c2 :: nat
    assume h: "r1 < 9" "r2 < 9" "r1 \<noteq> r2" "c1 < 9" "c2 < 9"
      "c1 = c2 \<or> getBoxIndex r1 c1 = getBoxIndex r2 c2"
    define i where "i = row_pos ! r1"
    define j where "j = row_pos ! r2"
    have ij: "i < 9" "j < 9" "rowOrder ! i = r1" "rowOrder ! j = r2"
      unfolding i_def j_def using rowOrder_props(5,6) h(1,2) by simp_all
    have ne: "i \<noteq> j" using ij(3,4) h(3) by auto
    have "full ! i ! c1 \<noteq> full ! j ! c2"
    proof (cases "i < j")
      case True
      show ?thesis using low [OF True ij(2) h(5,4)] h(6) ij(3,4) by auto
    next
      case False
      then have "j < i" using ne by simp
      then show ?thesis using low [OF _ ij(1) h(4,5)] h(6) ij(3,4) by fastforce
    qed
    then show "grid_of full ! r1 ! c1 \<noteq> grid_of full ! r2 ! c2"
      using h(1,2) by (simp add: grid_of_nth i_def j_def)
  qed
next
  assume ok: "grid_ok (grid_of full)"
  show "\<forall>j<9. \<not> clash (take j full) (full ! j)"
  proof (intro allI impI)
    fix j :: nat assume j: "j < 9"
    have "full ! i ! c' \<noteq> full ! j ! c"
      if "i < j" "c < 9" "c' < 9"
        "c' = c \<or> getBoxIndex (rowOrder ! i) c' = getBoxIndex (rowOrder ! j) c" for i c c'
    proof -
      define r1 where "r1 = rowOrder ! i"
      define r2 where "r2 = rowOrder ! j"
      have i: "i < 9" using that(1) j by simp
      have r: "r1 < 9" "r2 < 9" "row_pos ! r1 = i" "row_pos ! r2 = j"
        unfolding r1_def r2_def using rowOrder_props(3,4) i j by simp_all
      have "r1 \<noteq> r2" using r(3,4) that(1) by auto
      then have "grid_of full ! r1 ! c' \<noteq> grid_of full ! r2 ! c"
        using ok r(1,2) that(2,3,4) unfolding grid_ok_def r1_def r2_def by blast
      then show ?thesis using r by (simp add: grid_of_nth)
    qed
    then show "\<not> clash (take j full) (full ! j)"
      unfolding clash_take [OF len j] by blast
  qed
qed

lemma hasZero_iff:
  "hasZeroInFirstColumns g \<longleftrightarrow> list_ex (\<lambda>r. list_ex (\<lambda>c. g ! r ! c = 0) [0..<3]) [0..<9]"
  unfolding hasZeroInFirstColumns_def list_ex_iff by blast

lemma path_of_grid:
  assumes "length g = 9"
  shows "grid_of (map (\<lambda>i. g ! (rowOrder ! i)) [0..<9]) = g"
proof (rule nth_equalityI)
  show "length (grid_of (map (\<lambda>i. g ! (rowOrder ! i)) [0..<9])) = length g"
    using assms by (simp add: grid_of_def)
next
  fix r assume "r < length (grid_of (map (\<lambda>i. g ! (rowOrder ! i)) [0..<9]))"
  then have r: "r < 9" by (simp add: grid_of_def)
  show "grid_of (map (\<lambda>i. g ! (rowOrder ! i)) [0..<9]) ! r = g ! r"
    using rowOrder_props(5,6) [OF r] r by (simp add: grid_of_nth)
qed

lemma found_accepted:
  assumes wf: "wf_candidates candidates"
  shows "found candidates [] = {g. accepted_grid candidates g}"
proof (intro equalityI subsetI)
  fix g assume "g \<in> found candidates []"
  then obtain full where f: "g = grid_of full" "length full = 9"
    "\<forall>i<9. full ! i \<in> set (candidates ! (rowOrder ! i)) \<and> \<not> clash (take i full) (full ! i)"
    "hasZeroInFirstColumns g"
    by (auto simp: found_def completions_def)
  have lg: "length g = 9" using f(1) by (simp add: grid_of_def)
  have mem: "g ! r \<in> set (candidates ! r)" if r: "r < 9" for r
  proof -
    have "full ! (row_pos ! r) \<in> set (candidates ! (rowOrder ! (row_pos ! r)))"
      using f(3) rowOrder_props(5) [OF r] by blast
    then show ?thesis using rowOrder_props(6) [OF r] r by (simp add: f(1) grid_of_nth)
  qed
  have rows: "\<forall>r<9. length (g ! r) = 9 \<and> distinct (g ! r)"
  proof (intro allI impI)
    fix r :: nat assume r: "r < 9"
    have "list_all wf_candidate (candidates ! r)"
      using wf r by (simp add: wf_candidates_def list_all_length)
    then have "wf_candidate (g ! r)" using mem [OF r] by (simp add: list_all_iff)
    then show "length (g ! r) = 9 \<and> distinct (g ! r)" by (simp add: wf_candidate_def)
  qed
  have "grid_ok g" using no_clash_grid_ok [OF f(2)] f(3) by (simp add: f(1))
  then have "(\<forall>c<9. distinct (grid_column g c)) \<and> (\<forall>b<9. distinct (grid_box g b))"
    using columns_boxes_grid_ok [OF rows] by simp
  then show "g \<in> {g. accepted_grid candidates g}"
    using lg mem f(4) by (simp add: accepted_grid_def list_all_iff hasZero_iff)
next
  fix g assume "g \<in> {g. accepted_grid candidates g}"
  then have a: "length g = 9" "\<forall>r<9. g ! r \<in> set (candidates ! r)"
    "\<forall>c<9. distinct (grid_column g c)" "\<forall>b<9. distinct (grid_box g b)"
    "hasZeroInFirstColumns g"
    by (simp_all add: accepted_grid_def list_all_iff hasZero_iff)
  define full where "full = map (\<lambda>i. g ! (rowOrder ! i)) [0..<9]"
  have g: "grid_of full = g" unfolding full_def by (rule path_of_grid [OF a(1)])
  have len: "length full = 9" by (simp add: full_def)
  have rows: "\<forall>r<9. length (g ! r) = 9 \<and> distinct (g ! r)"
  proof (intro allI impI)
    fix r :: nat assume r: "r < 9"
    have "list_all wf_candidate (candidates ! r)"
      using wf r by (simp add: wf_candidates_def list_all_length)
    then have "wf_candidate (g ! r)" using a(2) r by (simp add: list_all_iff)
    then show "length (g ! r) = 9 \<and> distinct (g ! r)" by (simp add: wf_candidate_def)
  qed
  have "grid_ok (grid_of full)" using columns_boxes_grid_ok [OF rows] a(3,4) by (simp add: g)
  then have nc: "\<forall>j<9. \<not> clash (take j full) (full ! j)" using no_clash_grid_ok [OF len] by simp
  have mem: "full ! i \<in> set (candidates ! (rowOrder ! i))" if "i < 9" for i
    using a(2) rowOrder_props(3) [OF that] that by (simp add: full_def)
  have "full \<in> completions candidates []"
    using len nc mem by (simp add: completions_def)
  then have "grid_of full \<in> found candidates []"
    unfolding found_def using a(5) g by blast
  then show "g \<in> found candidates []" by (simp only: g)
qed

lemma tryCandidate_masks:
  "tryCandidate solveNext r cand st = Some st' \<Longrightarrow>
     colMask st' = colMask st \<and> boxMask st' = boxMask st"
  by (auto simp: tryCandidate_def Let_def split: Option.bind_splits if_splits)

lemma tryCandidates_masks:
  "tryCandidates solveNext r cands st = Some st' \<Longrightarrow>
     colMask st' = colMask st \<and> boxMask st' = boxMask st"
proof (induction cands arbitrary: st)
  case Nil
  then show ?case by simp
next
  case (Cons cand cands)
  then obtain st1 where st1: "tryCandidate solveNext r cand st = Some st1"
    "tryCandidates solveNext r cands st1 = Some st'"
    by (auto split: Option.bind_splits)
  show ?case using tryCandidate_masks [OF st1(1)] Cons.IH [OF st1(2)] by simp
qed

lemma solveFixed_masks:
  assumes "solveFixed candidates pos st = Some st'"
  shows "colMask st' = colMask st \<and> boxMask st' = boxMask st"
proof (cases "pos = 9")
  case True
  then show ?thesis using assms by (subst (asm) solveFixed.simps) (auto split: if_splits)
next
  case False
  then obtain r cands where
    "tryCandidates (solveFixed candidates (pos + 1)) r cands st = Some st'"
    using assms by (subst (asm) solveFixed.simps) (auto split: Option.bind_splits)
  then show ?thesis by (rule tryCandidates_masks)
qed

lemma wf_to_digits:
  assumes "length s = 9" "distinct s" "set s \<subseteq> set alphabet"
  shows "wf_candidate (to_digits s)"
proof -
  have "inj_on digit_value (set s)"
    using assms(3) digit_value_inj by (intro inj_onI) blast
  then have "distinct (map digit_value s)" using assms(2) by (simp add: distinct_map)
  moreover have "list_all (\<lambda>d. 0 \<le> d \<and> d \<le> 9) (map digit_value s)"
    using assms(3) digit_value_alphabet by (auto simp: list_all_iff)
  ultimately show ?thesis using assms(1) by (simp add: wf_candidate_def to_digits_def)
qed

lemma wf_candidates_of:
  assumes "length candidatePuzzle = 9"
    and "\<forall>row\<in>set candidatePuzzle. \<forall>s\<in>set row. length s = 9 \<and> distinct s \<and> set s \<subseteq> set alphabet"
  shows "wf_candidates (candidates_of candidatePuzzle)"
proof -
  have "list_all wf_candidate (map to_digits (candidatePuzzle ! r))" if "r < 9" for r
  proof -
    have "candidatePuzzle ! r \<in> set candidatePuzzle" using that assms(1) by simp
    then have "\<forall>s\<in>set (candidatePuzzle ! r). length s = 9 \<and> distinct s \<and> set s \<subseteq> set alphabet"
      using assms(2) by blast
    then show ?thesis by (simp add: list_all_iff wf_to_digits)
  qed
  then show ?thesis
    by (simp add: wf_candidates_def candidates_of_def list_all_iff)
qed

lemma solveFixed_rows:
  assumes "length candidatePuzzle = 9"
    and "\<forall>row\<in>set candidatePuzzle. \<forall>s\<in>set row.
           length s = 9 \<and> distinct s \<and> set s \<subseteq> set alphabet"
  shows "\<exists>st'. solveFixed (candidates_of candidatePuzzle) 0 initial_state = Some st'
           \<and> set (allSolutions st') = {g. accepted_grid (candidates_of candidatePuzzle) g}"
proof -
  have wf: "wf_candidates (candidates_of candidatePuzzle)"
    using wf_candidates_of [OF assms] .
  obtain st' where st': "solveFixed (candidates_of candidatePuzzle) 0 initial_state = Some st'"
    "set (allSolutions st') = set (allSolutions initial_state)
        \<union> found (candidates_of candidatePuzzle) []"
    using solveFixed_correct [OF wf, of "[]" 0 initial_state] inv_initial by auto
  have "allSolutions initial_state = []" by (simp add: initial_state_def)
  then have "set (allSolutions st') = {g. accepted_grid (candidates_of candidatePuzzle) g}"
    using st'(2) found_accepted [OF wf] by simp
  then show ?thesis using st'(1) by blast
qed

lemma rows_wellformed:
  "length (single_candidates solved_rows) = 9"
  "\<forall>row\<in>set (single_candidates solved_rows). \<forall>s\<in>set row.
      length s = 9 \<and> distinct s \<and> set s \<subseteq> set alphabet"
  "length (single_candidates mixed_rows) = 9"
  "\<forall>row\<in>set (single_candidates mixed_rows). \<forall>s\<in>set row.
      length s = 9 \<and> distinct s \<and> set s \<subseteq> set alphabet"
  by (simp_all add: single_candidates_def solved_rows_def mixed_rows_def alphabet_def)

lemma solved_rows_run:
  "\<exists>st'. solveFixed (candidates_of (single_candidates solved_rows)) 0 initial_state = Some st'
         \<and> map to_digits solved_rows \<in> set (allSolutions st')"
proof -
  have "accepted_grid (candidates_of (single_candidates solved_rows)) (map to_digits solved_rows)"
    by code_simp
  then show ?thesis using solveFixed_rows [OF rows_wellformed(1,2)] by auto
qed

section \<open>Properties of the divisor search loop\<close>

lemma filter_rows_empty:
  "\<forall>r\<in>set rs. r < length puzzle \<and> filterDivisibleByCandidate (puzzle ! r) g \<noteq> None \<Longrightarrow>
   distinct rs \<Longrightarrow>
   \<exists>r\<in>set rs. filterDivisibleByCandidate (puzzle ! r) g = Some [] \<Longrightarrow>
   \<exists>puzzle'. filter_rows g puzzle rs = Some (False, puzzle')"
proof (induction rs arbitrary: puzzle)
  case Nil
  then show ?case by simp
next
  case (Cons r rs)
  obtain filtered where f: "filterDivisibleByCandidate (puzzle ! r) g = Some filtered"
    using Cons.prems(1) by auto
  have v: "vector_at puzzle r = Some (puzzle ! r)" using Cons.prems(1) by (simp add: vector_at_def)
  show ?case
  proof (cases "filtered = []")
    case True
    then show ?thesis using f v by simp
  next
    case False
    let ?p = "puzzle[r := filtered]"
    have same: "?p ! r' = puzzle ! r'" if "r' \<in> set rs" for r'
    proof -
      have "r' \<noteq> r" using Cons.prems(2) that by auto
      then show ?thesis by simp
    qed
    have 1: "\<forall>r'\<in>set rs. r' < length ?p \<and> filterDivisibleByCandidate (?p ! r') g \<noteq> None"
      using Cons.prems(1) same by simp
    have 2: "\<exists>r'\<in>set rs. filterDivisibleByCandidate (?p ! r') g = Some []"
      using Cons.prems(3) f False same by auto
    have "\<exists>puzzle'. filter_rows g ?p rs = Some (False, puzzle')"
      using Cons.IH [OF 1 _ 2] Cons.prems(2) by simp
    then show ?thesis using f v False by simp
  qed
qed

lemma divisor_defined:
  assumes "d \<in> set candidateGCDs" "\<forall>s\<in>set options. set s \<subseteq> set alphabet"
  shows "filterDivisibleByCandidate options d \<noteq> None"
proof -
  have d: "337 \<le> d" "d \<le> 12345678"
    using assms(1) by (simp_all add: candidateGCDs_def candidateGCDs_from_set)
  have "remainder_loop d 0 s \<noteq> None" if "s \<in> set options" for s
    using remainder_steps_bounds [OF d, of s 0] assms(2) that d(1)
    by (auto simp: remainder_loop_steps)
  then show ?thesis by (intro filterDivisibleByCandidate_defined) simp
qed

lemma divisor_loop_found:
  "divisor_loop base gs = Some (Some (d, sols)) \<Longrightarrow>
     \<exists>pre post. gs = pre @ d # post \<and> (\<forall>g\<in>set pre. \<not> yields_solutions base g)
        \<and> yields_solutions base d \<and> sols \<noteq> []"
proof (induction gs)
  case Nil
  then show ?case by simp
next
  case (Cons g gs)
  then obtain out where out: "try_divisor base g = Some out"
    by (auto split: Option.bind_splits)
  have hit: ?case if so: "out = Solved st" and ne: "allSolutions st \<noteq> []" for st
  proof -
    have "d = g" "sols = allSolutions st" using Cons.prems out so ne by simp_all
    then have "g # gs = [] @ d # gs \<and> (\<forall>g\<in>set []. \<not> yields_solutions base g)
        \<and> yields_solutions base d \<and> sols \<noteq> []"
      using out so ne by (simp add: yields_solutions_def)
    then show ?thesis by blast
  qed
  have miss: ?case
    if ny: "\<not> yields_solutions base g" and rec: "divisor_loop base gs = Some (Some (d, sols))"
  proof -
    obtain pre post where p: "gs = pre @ d # post" "\<forall>g\<in>set pre. \<not> yields_solutions base g"
      "yields_solutions base d" "sols \<noteq> []"
      using Cons.IH [OF rec] by blast
    have "g # gs = (g # pre) @ d # post \<and> (\<forall>x\<in>set (g # pre). \<not> yields_solutions base x)
        \<and> yields_solutions base d \<and> sols \<noteq> []"
      using p ny by simp
    then show ?thesis by blast
  qed
  show ?case
  proof (cases out)
    case Skipped
    then show ?thesis using miss Cons.prems out by (simp add: yields_solutions_def)
  next
    case (Solved st)
    show ?thesis
    proof (cases "allSolutions st = []")
      case True
      then show ?thesis using miss Cons.prems out Solved by (simp add: yields_solutions_def)
    next
      case False
      then show ?thesis using hit Solved by simp
    qed
  qed
qed

lemma candidateGCDs_props:
  "set candidateGCDs = {g. 337 \<le> g \<and> g \<le> 12345678 \<and> g mod 10 \<in> {1, 3, 7, 9}}"
  "sorted_wrt (\<lambda>a b. b < a) candidateGCDs"
  by (simp_all add: candidateGCDs_def candidateGCDs_from_set candidateGCDs_from_decreasing)

lemma divisor_loop_skip:
  "\<forall>g\<in>set pre. try_divisor base g = Some Skipped \<Longrightarrow>
     divisor_loop base (pre @ rest) = divisor_loop base rest"
  by (induction pre) simp_all

lemma decreasing_split:
  "sorted_wrt (\<lambda>a b. b < a) (xs :: int list) \<Longrightarrow> d \<in> set xs \<Longrightarrow>
     \<exists>post. xs = filter (\<lambda>g. d < g) xs @ d # post"
proof (induction xs)
  case Nil
  then show ?case by simp
next
  case (Cons x xs)
  show ?case
  proof (cases "x = d")
    case True
    have "filter (\<lambda>g. d < g) xs = []"
      using Cons.prems(1) True by (auto simp: filter_empty_conv)
    then show ?thesis using True by simp
  next
    case False
    then have "d \<in> set xs" using Cons.prems(2) by simp
    moreover have "d < x" using Cons.prems(1) \<open>d \<in> set xs\<close> by auto
    ultimately show ?thesis using Cons.IH Cons.prems(1) by auto
  qed
qed

lemma no_large_divisor:
  assumes "333667 < g" "g \<le> 12345678" "g mod 10 \<in> {1, 3, 7, 9}"
  shows "(395061728 :: int) mod g \<noteq> 0"
proof
  assume "(395061728 :: int) mod g = 0"
  then have "g dvd 395061728" by auto
  moreover have "(395061728 :: int) = 32 * 12345679" by simp
  ultimately have dv: "g dvd 32 * 12345679" by (simp only:)
  have "g mod 10 = 1 \<or> g mod 10 = 3 \<or> g mod 10 = 7 \<or> g mod 10 = 9" using assms(3) by simp
  then have "g mod 2 = 1" by presburger
  then have "odd g" by (simp add: odd_iff_mod_2_eq_one)
  then have "coprime g 2" by (simp add: coprime_right_2_iff_odd)
  then have "coprime g (2 ^ 5)" by (simp only: coprime_power_right_iff) simp
  then have "coprime g 32" by simp
  then have "g dvd 32 * 12345679 \<longleftrightarrow> g dvd 12345679"
    by (rule coprime_dvd_mult_right_iff)
  then have "g dvd 12345679" using dv by blast
  then obtain k where k: "12345679 = g * k" by (auto simp: dvd_def)
  have kpos: "0 < k"
  proof (rule ccontr)
    assume "\<not> 0 < k"
    then have "g * k \<le> 0" using assms(1) by (simp add: mult_nonneg_nonpos)
    then show False using k by simp
  qed
  have "k \<le> 36"
  proof (rule ccontr)
    assume "\<not> k \<le> 36"
    then have "37 \<le> k" by simp
    then have "333668 * 37 \<le> g * k" using assms(1) by (intro mult_mono) simp_all
    then show False using k by simp
  qed
  moreover have "2 \<le> k"
  proof (rule ccontr)
    assume "\<not> 2 \<le> k"
    then have "k = 1" using kpos by simp
    then show False using k assms(2) by simp
  qed
  ultimately have "k \<in> {2..36}" by simp
  moreover have "k dvd 12345679" unfolding k by simp
  moreover have "\<forall>k\<in>set [2..36::int]. \<not> k dvd 12345679"
    by (simp del: set_upto)
  then have "\<forall>k\<in>{2..36::int}. \<not> k dvd 12345679"
    by (simp only: set_upto)
  ultimately show False by blast
qed

lemma first_row_solved:
  "vector_at (single_candidates solved_rows) 0 = Some [''395061728'']"
  "single_candidates solved_rows ! 0 = [''395061728'']"
  "decimal_value ''395061728'' = 395061728"
  by (simp_all add: single_candidates_def solved_rows_def vector_at_def decimal_value_def
        digit_value_def char_value_def)

lemma first_row_emptied:
  assumes "g \<in> set candidateGCDs" "333667 < g"
  shows "filterDivisibleByCandidate (single_candidates solved_rows ! 0) g = Some []"
proof -
  have g: "337 \<le> g" "g \<le> 12345678" "g mod 10 \<in> {1, 3, 7, 9}"
    using assms(1) by (simp_all add: candidateGCDs_props(1))
  have "0 < g" using g(1) by simp
  moreover have "\<forall>s\<in>set [''395061728'']. set s \<subseteq> set alphabet \<and> length s \<le> 9"
    by (simp add: alphabet_def)
  ultimately have "filterDivisibleByCandidate [''395061728''] g
      = Some (filter (\<lambda>s. decimal_value s mod g = 0) [''395061728''])"
    by (rule filterDivisibleByCandidate_filter)
  then show ?thesis
    using no_large_divisor [OF assms(2) g(2,3)] by (simp add: first_row_solved)
qed

lemma solved_skipped:
  assumes "g \<in> set candidateGCDs" "333667 < g"
  shows "try_divisor (single_candidates solved_rows) g = Some Skipped"
proof -
  have "[0..<9] = 0 # [1..<9]" by (simp add: upt_conv_Cons)
  then have "filter_rows g (single_candidates solved_rows) [0..<9]
      = Some (False, (single_candidates solved_rows)[0 := []])"
    using first_row_emptied [OF assms] by (simp add: first_row_solved)
  then show ?thesis by (simp add: try_divisor_def)
qed

lemma filter_rows_keep:
  "\<forall>r\<in>set rs. r < length puzzle \<and> puzzle ! r \<noteq> []
       \<and> filterDivisibleByCandidate (puzzle ! r) g = Some (puzzle ! r) \<Longrightarrow>
   filter_rows g puzzle rs = Some (True, puzzle)"
  by (induction rs) (simp_all add: vector_at_def)

lemma solved_rows_kept:
  "r < 9 \<Longrightarrow> filterDivisibleByCandidate (single_candidates solved_rows ! r) 333667
     = Some (single_candidates solved_rows ! r)"
proof -
  have "\<forall>r<9. filter (\<lambda>s. decimal_value s mod 333667 = 0) (single_candidates solved_rows ! r)
      = single_candidates solved_rows ! r"
    unfolding all_less_9
    by (simp add: single_candidates_def solved_rows_def decimal_value_def digit_value_def
          char_value_def)
  moreover assume r: "r < 9"
  moreover have "\<forall>s\<in>set (single_candidates solved_rows ! r). set s \<subseteq> set alphabet \<and> length s \<le> 9"
    using rows_wellformed(1,2) r by (metis nth_mem order_refl)
  ultimately show ?thesis
    using filterDivisibleByCandidate_filter [of 333667 "single_candidates solved_rows ! r"]
    by simp
qed

lemma solved_found:
  "\<exists>st. try_divisor (single_candidates solved_rows) 333667 = Some (Solved st)
       \<and> allSolutions st \<noteq> []"
proof -
  let ?P = "single_candidates solved_rows"
  have ne: "\<forall>r<9. ?P ! r \<noteq> []"
    unfolding all_less_9 by (simp add: single_candidates_def solved_rows_def)
  have "filter_rows 333667 ?P [0..<9] = Some (True, ?P)"
    using solved_rows_kept ne rows_wellformed(1) by (intro filter_rows_keep) simp
  moreover obtain st where st: "solveFixed (candidates_of ?P) 0 initial_state = Some st"
    "map to_digits solved_rows \<in> set (allSolutions st)"
    using solved_rows_run by blast
  ultimately have "try_divisor ?P 333667 = Some (Solved st)"
    by (simp add: try_divisor_def)
  moreover have "allSolutions st \<noteq> []" using st(2) by auto
  ultimately show ?thesis by blast
qed

section \<open>Properties of the whole run\<close>

lemma position_defined_len:
  "\<forall>s\<in>set numbers. length s = 9 \<Longrightarrow> 0 \<le> column \<Longrightarrow> column \<le> 8
     \<Longrightarrow> position_defined column numbers"
  by (auto simp: position_defined_def list_all_iff string_at_def)

lemma apply_filter_subset:
  assumes "\<forall>s\<in>set numbers. length s = 9" "0 \<le> filter_column f" "filter_column f \<le> 8"
  shows "\<exists>out. apply_filter f numbers = Some out \<and> set out \<subseteq> set numbers"
proof (cases f)
  case (Fixed column v)
  then show ?thesis
    using assms position_defined_len [OF assms(1), of column]
    by (auto simp: filterByColumn_char)
next
  case (Disallowed column vs)
  then show ?thesis
    using assms position_defined_len [OF assms(1), of column]
    by (auto simp: filterDisallowedValues_char)
qed

lemma apply_filters_subset:
  "\<forall>s\<in>set numbers. length s = 9 \<Longrightarrow>
   \<forall>f\<in>set fs. 0 \<le> filter_column f \<and> filter_column f \<le> 8 \<Longrightarrow>
   \<exists>out. apply_filters fs numbers = Some out \<and> set out \<subseteq> set numbers"
proof (induction fs arbitrary: numbers)
  case Nil
  then show ?case by simp
next
  case (Cons f fs)
  obtain mid where mid: "apply_filter f numbers = Some mid" "set mid \<subseteq> set numbers"
    using apply_filter_subset [of numbers f] Cons.prems by auto
  have "\<forall>s\<in>set mid. length s = 9" using mid(2) Cons.prems(1) by blast
  then obtain out where "apply_filters fs mid = Some out" "set out \<subseteq> set mid"
    using Cons.IH [of mid] Cons.prems(2) by auto
  then show ?case using mid by auto
qed

lemma build_rows_subset:
  "\<forall>s\<in>set numbers. length s = 9 \<Longrightarrow>
   \<forall>fs\<in>set fss. \<forall>f\<in>set fs. 0 \<le> filter_column f \<and> filter_column f \<le> 8 \<Longrightarrow>
   \<exists>puzzle. build_rows fss numbers = Some puzzle \<and> length puzzle = length fss
      \<and> (\<forall>row\<in>set puzzle. set row \<subseteq> set numbers)"
proof (induction fss)
  case Nil
  then show ?case by simp
next
  case (Cons fs fss)
  obtain row where row: "apply_filters fs numbers = Some row" "set row \<subseteq> set numbers"
    using apply_filters_subset [of numbers fs] Cons.prems by auto
  obtain puzzle where "build_rows fss numbers = Some puzzle" "length puzzle = length fss"
    "\<forall>row\<in>set puzzle. set row \<subseteq> set numbers"
    using Cons.IH Cons.prems by auto
  then show ?case using row by auto
qed

lemma row_filters_columns:
  "length row_filters = 9"
  "\<forall>fs\<in>set row_filters. \<forall>f\<in>set fs. 0 \<le> filter_column f \<and> filter_column f \<le> 8"
  by (simp_all add: row_filters_def)

lemma build_puzzle_subset:
  assumes "\<forall>s\<in>set validNumbers. length s = 9"
  shows "\<exists>basePuzzle. build_puzzle validNumbers = Some basePuzzle \<and> length basePuzzle = 9
      \<and> (\<forall>row\<in>set basePuzzle. set row \<subseteq> set validNumbers)"
  using build_rows_subset [OF assms row_filters_columns(2)] row_filters_columns(1)
  by (simp add: build_puzzle_def)


lemma apply_filter_filter:
  "apply_filter f numbers = Some out \<Longrightarrow> \<exists>P. out = filter P numbers \<and>
      (\<forall>s. apply_filter f [s] = Some [s] \<longrightarrow> P s)"
proof (cases f)
  case (Fixed column v)
  assume "apply_filter f numbers = Some out"
  then have "out = filter (position_equals column v) numbers"
    using Fixed by (auto simp: filterByColumn_char split: if_splits)
  moreover have "\<forall>s. apply_filter f [s] = Some [s] \<longrightarrow> position_equals column v s"
    using Fixed by (auto simp: filterByColumn_char split: if_splits)
  ultimately show ?thesis by blast
next
  case (Disallowed column vs)
  assume "apply_filter f numbers = Some out"
  then have "out = filter (position_excludes column vs) numbers"
    using Disallowed by (auto simp: filterDisallowedValues_char split: if_splits)
  moreover have "\<forall>s. apply_filter f [s] = Some [s] \<longrightarrow> position_excludes column vs s"
    using Disallowed by (auto simp: filterDisallowedValues_char split: if_splits)
  ultimately show ?thesis by blast
qed

lemma apply_filters_nil: "apply_filters fs [] = Some []"
proof (induction fs)
  case Nil
  show ?case by simp
next
  case (Cons f fs)
  have "apply_filter f [] = Some []" by (cases f) simp_all
  then show ?case using Cons.IH by simp
qed

lemma apply_filters_member:
  "apply_filters fs numbers = Some out \<Longrightarrow> apply_filters fs [s] = Some [s] \<Longrightarrow>
     s \<in> set numbers \<Longrightarrow> s \<in> set out"
proof (induction fs arbitrary: numbers)
  case Nil
  then show ?case by simp
next
  case (Cons f fs)
  obtain mid where mid: "apply_filter f numbers = Some mid" "apply_filters fs mid = Some out"
    using Cons.prems(1) by (auto split: Option.bind_splits)
  obtain one where one: "apply_filter f [s] = Some one" "apply_filters fs one = Some [s]"
    using Cons.prems(2) by (auto split: Option.bind_splits)
  obtain P where P: "mid = filter P numbers" "\<forall>s. apply_filter f [s] = Some [s] \<longrightarrow> P s"
    using apply_filter_filter [OF mid(1)] by blast
  obtain Q where Q: "one = filter Q [s]" using apply_filter_filter [OF one(1)] by blast
  have "one = [s]"
  proof (cases "Q s")
    case True
    then show ?thesis using Q by simp
  next
    case False
    then have "one = []" using Q by simp
    then show ?thesis using one(2) by (simp add: apply_filters_nil)
  qed
  then have "s \<in> set mid" using P one(1) Cons.prems(3) by simp
  then show ?case using Cons.IH [OF mid(2) _ \<open>s \<in> set mid\<close>] one(2) \<open>one = [s]\<close> by simp
qed

lemma build_rows_member:
  "build_rows fss numbers = Some puzzle \<Longrightarrow> r < length fss \<Longrightarrow>
     apply_filters (fss ! r) [s] = Some [s] \<Longrightarrow> s \<in> set numbers \<Longrightarrow> s \<in> set (puzzle ! r)"
proof (induction fss arbitrary: puzzle r)
  case Nil
  then show ?case by simp
next
  case (Cons fs fss)
  obtain row rest where p: "apply_filters fs numbers = Some row"
    "build_rows fss numbers = Some rest" "puzzle = row # rest"
    using Cons.prems(1) by (auto split: Option.bind_splits)
  show ?case
  proof (cases r)
    case 0
    then show ?thesis using apply_filters_member [OF p(1) _ Cons.prems(4)] Cons.prems(3) p(3) by simp
  next
    case (Suc r')
    then show ?thesis using Cons.IH [OF p(2), of r'] Cons.prems(2,3,4) p(3) by simp
  qed
qed

lemma example_rows_pass:
  "list_all (\<lambda>r. apply_filters (row_filters ! r) [solved_rows ! r] = Some [solved_rows ! r]) [0..<9]"
  "list_all (\<lambda>r. apply_filters (row_filters ! r) [mixed_rows ! r] = Some [mixed_rows ! r]) [0..<9]"
  "list_all (\<lambda>s. length s = 9 \<and> distinct s \<and> set s \<subseteq> set alphabet
                 \<and> set main_requiredDigits \<subseteq> set s) (solved_rows @ mixed_rows)"
  by code_simp+

lemma example_rows_in_base:
  assumes "completion_order main_requiredDigits order"
  shows "\<exists>validNumbers basePuzzle.
      generate main_requiredDigits order = Some validNumbers
      \<and> build_puzzle validNumbers = Some basePuzzle
      \<and> list_all (\<lambda>r. solved_rows ! r \<in> set (basePuzzle ! r)
                      \<and> mixed_rows ! r \<in> set (basePuzzle ! r)) [0..<9]"
proof -
  have r: "set main_requiredDigits \<subseteq> set alphabet"
    by (simp add: main_requiredDigits_def alphabet_def)
  let ?vn = "generate_unfiltered order"
  have g: "generate main_requiredDigits order = Some ?vn"
    "set ?vn = {s. length s = 9 \<and> distinct s \<and> set s \<subseteq> set alphabet
                   \<and> set main_requiredDigits \<subseteq> set s}"
    using generate_result [OF r assms] by simp_all
  have "\<forall>s\<in>set ?vn. length s = 9" using g(2) by simp
  then obtain basePuzzle where b: "build_puzzle ?vn = Some basePuzzle"
    using build_puzzle_subset by blast
  have in_vn: "\<forall>s\<in>set (solved_rows @ mixed_rows). s \<in> set ?vn"
    using example_rows_pass(3) unfolding g(2) list_all_iff by blast
  have len: "length solved_rows = 9" "length mixed_rows = 9"
    by (simp_all add: solved_rows_def mixed_rows_def)
  have "solved_rows ! k \<in> set (basePuzzle ! k) \<and> mixed_rows ! k \<in> set (basePuzzle ! k)"
    if k: "k < 9" for k
  proof -
    have 1: "apply_filters (row_filters ! k) [solved_rows ! k] = Some [solved_rows ! k]"
      "apply_filters (row_filters ! k) [mixed_rows ! k] = Some [mixed_rows ! k]"
      using example_rows_pass(1,2) k by (simp_all add: list_all_iff)
    have 2: "solved_rows ! k \<in> set ?vn" "mixed_rows ! k \<in> set ?vn"
      using in_vn k len by simp_all
    have 3: "k < length row_filters" using k row_filters_columns(1) by simp
    show ?thesis
      using build_rows_member [OF b [unfolded build_puzzle_def] 3 1(1) 2(1)]
        build_rows_member [OF b [unfolded build_puzzle_def] 3 1(2) 2(2)]
      by simp
  qed
  then have "list_all (\<lambda>r. solved_rows ! r \<in> set (basePuzzle ! r)
                      \<and> mixed_rows ! r \<in> set (basePuzzle ! r)) [0..<9]"
    by (simp add: list_all_iff)
  then show ?thesis using g(1) b by blast
qed








section \<open>The position filters and the divisibility filter\<close>

text \<open>
  C7. \<open>filterByColumn\<close> returns exactly the strings of its input, in order, whose
  character at the position is the symbol, and \<open>filterDisallowedValues\<close> exactly those
  whose character at the position is not a forbidden one, whenever the position can be read
  in every string (otherwise the C++ behaviour is undefined); a result is a subset of the
  input and never longer.
\<close>

theorem position_filters_exact:
  "filterByColumn numbers column v =
     (if position_defined column numbers
      then Some (filter (position_equals column v) numbers) else None)
   \<and> filterDisallowedValues numbers column ds =
     (if position_defined column numbers
      then Some (filter (position_excludes column ds) numbers) else None)
   \<and> (\<forall>out. filterByColumn numbers column v = Some out
          \<longrightarrow> set out \<subseteq> set numbers \<and> length out \<le> length numbers)
   \<and> (\<forall>out. filterDisallowedValues numbers column ds = Some out
          \<longrightarrow> set out \<subseteq> set numbers \<and> length out \<le> length numbers)"
  by (auto simp: filterByColumn_char filterDisallowedValues_char)

theorem position_filters_exact_witness:
  "filterByColumn [''103456927'', ''123456789'', ''987654321''] 7 CHR ''2''
     = Some [''103456927'', ''987654321'']
   \<and> filterDisallowedValues [''103456927'', ''120456789'', ''987654321''] 2 [CHR ''0'', CHR ''3'']
     = Some [''987654321'']"
proof -
  let ?xs = "[''103456927'', ''123456789'', ''987654321'']"
  let ?ys = "[''103456927'', ''120456789'', ''987654321'']"
  have x: "(if position_defined 7 ?xs
            then Some (filter (position_equals 7 CHR ''2'') ?xs) else None)
           = Some [''103456927'', ''987654321'']"
    by (simp add: position_defined_def position_equals_def string_at_def)
  have y: "(if position_defined 2 ?ys
            then Some (filter (position_excludes 2 [CHR ''0'', CHR ''3'']) ?ys) else None)
           = Some [''987654321'']"
    by (simp add: position_defined_def position_excludes_def string_at_def)
  have "filterByColumn ?xs 7 CHR ''2'' = Some [''103456927'', ''987654321'']"
    using position_filters_exact [of ?xs 7 "CHR ''2''"] by (simp only: x)
  moreover have "filterDisallowedValues ?ys 2 [CHR ''0'', CHR ''3''] = Some [''987654321'']"
    using position_filters_exact [of ?ys 2 _ "[CHR ''0'', CHR ''3'']"] by (simp only: y)
  ultimately show ?thesis by (rule conjI)
qed

text \<open>
  C5. For a list of 9-digit strings and a positive modulus \<open>d\<close>,
  \<open>filterDivisibleByCandidate\<close> meets no overflow, keeps exactly the strings whose base-10
  value has remainder 0 modulo \<open>d\<close>, and the digit-by-digit accumulation ends with the true
  remainder of every string.
\<close>

theorem filterDivisibleByCandidate_exact:
  assumes "0 < d" and "\<forall>s\<in>set options. length s = 9 \<and> set s \<subseteq> set alphabet"
  shows "filterDivisibleByCandidate options d
           = Some (filter (\<lambda>s. decimal_value s mod d = 0) options)
         \<and> (\<forall>s\<in>set options. remainder_loop d 0 s = Some (decimal_value s mod d))"
proof -
  have "\<forall>s\<in>set options. set s \<subseteq> set alphabet \<and> length s \<le> 9"
    using assms(2) by simp
  then show ?thesis
    using filterDivisibleByCandidate_filter [OF assms(1), of options]
      remainder_loop_decimal [OF assms(1)]
    by simp
qed

theorem filterDivisibleByCandidate_exact_witness:
  "filterDivisibleByCandidate [''123456789'', ''123456790'', ''000000018''] 9
     = Some [''123456789'', ''000000018'']"
proof -
  let ?options = "[''123456789'', ''123456790'', ''000000018'']"
  have h: "\<forall>s\<in>set ?options. length s = 9 \<and> set s \<subseteq> set alphabet"
    by (simp add: alphabet_def)
  have v: "filter (\<lambda>s. decimal_value s mod 9 = 0) ?options = [''123456789'', ''000000018'']"
    by (simp add: decimal_value_def digit_value_def char_value_def)
  have "filterDivisibleByCandidate ?options 9
          = Some (filter (\<lambda>s. decimal_value s mod 9 = 0) ?options)"
    by (rule conjunct1 [OF filterDivisibleByCandidate_exact [OF _ h]]) simp
  then show ?thesis by (simp only: v)
qed


section \<open>The solver\<close>

text \<open>
  C2. For nine row lists of strings of 9 pairwise distinct digits, \<open>solveFixed\<close> started at
  position 0 on the initial state returns, and the accumulator then holds exactly the
  grids that take row \<open>r\<close> from list \<open>r\<close>, have nine pairwise distinct symbols in every
  column and every 3 by 3 box, and have a zero somewhere in the first three columns: the
  search goes through all of them.
\<close>

theorem solver_finds_exactly:
  assumes "length candidatePuzzle = 9"
    and "\<forall>row\<in>set candidatePuzzle. \<forall>s\<in>set row.
           length s = 9 \<and> distinct s \<and> set s \<subseteq> set alphabet"
  shows "\<exists>st'. solveFixed (candidates_of candidatePuzzle) 0 initial_state = Some st'
           \<and> set (allSolutions st') = {g. accepted_grid (candidates_of candidatePuzzle) g}"
  using assms by (rule solveFixed_rows)

theorem solver_finds_exactly_witness:
  "length (single_candidates solved_rows) = 9
   \<and> (\<exists>st'. solveFixed (candidates_of (single_candidates solved_rows)) 0 initial_state = Some st'
         \<and> set (allSolutions st')
             = {g. accepted_grid (candidates_of (single_candidates solved_rows)) g}
         \<and> map to_digits solved_rows \<in> set (allSolutions st'))"
proof -
  have a: "accepted_grid (candidates_of (single_candidates solved_rows)) (map to_digits solved_rows)"
    by code_simp
  from solver_finds_exactly [OF rows_wellformed(1,2)] rows_wellformed(1) a
  show ?thesis by auto
qed

text \<open>
  C6. Whenever the trial of one candidate returns, whatever the recursion depth and whether
  the candidate was placed or rejected, the column masks and the box masks equal the ones
  before the trial; so do those after a whole call of \<open>solveFixed\<close>.
\<close>

theorem backtracking_restores_masks:
  "(tryCandidate (solveFixed candidates (pos + 1)) r cand st = Some st'
      \<longrightarrow> colMask st' = colMask st \<and> boxMask st' = boxMask st)
   \<and> (solveFixed candidates pos st = Some st''
      \<longrightarrow> colMask st'' = colMask st \<and> boxMask st'' = boxMask st)"
  using tryCandidate_masks solveFixed_masks by blast

theorem backtracking_restores_masks_witness:
  "\<exists>st st' st''.
     colMask st = [1, 64, 2, 128, 4, 256, 8, 512, 32]
     \<and> tryCandidate (solveFixed (candidates_of (single_candidates solved_rows)) (1 + 1)) 8
          [1, 7, 2, 8, 3, 9, 5, 0, 6] st = Some st'
     \<and> colMask st' = colMask st \<and> boxMask st' = boxMask st
     \<and> allSolutions st' = [map to_digits solved_rows]
     \<and> solveFixed (candidates_of (single_candidates solved_rows)) 1 st = Some st''
     \<and> colMask st'' = colMask st \<and> boxMask st'' = boxMask st"
proof -
  define st where "st =
     \<lparr>colMask = [1, 64, 2, 128, 4, 256, 8, 512, 32],
      boxMask = [67, 388, 552, 0, 0, 0, 0, 0, 0],
      solution = [replicate 9 0, [0, 6, 1, 7, 2, 8, 3, 9, 5], replicate 9 0, replicate 9 0,
                  replicate 9 0, replicate 9 0, replicate 9 0, replicate 9 0, replicate 9 0],
      allSolutions = [], candidateTries = 1 :: 64 word\<rparr>"
  let ?C = "candidates_of (single_candidates solved_rows)"
  have c: "colMask st = [1, 64, 2, 128, 4, 256, 8, 512, 32]" by (simp add: st_def)
  have "map_option allSolutions (tryCandidate (solveFixed ?C (1 + 1)) 8 [1, 7, 2, 8, 3, 9, 5, 0, 6] st)
          = Some [map to_digits solved_rows]"
    unfolding st_def by code_simp
  then obtain st' where 1: "tryCandidate (solveFixed ?C (1 + 1)) 8 [1, 7, 2, 8, 3, 9, 5, 0, 6] st = Some st'"
    "allSolutions st' = [map to_digits solved_rows]"
    by auto
  have "solveFixed ?C 1 st \<noteq> None"
    unfolding st_def by code_simp
  then obtain st'' where 2: "solveFixed ?C 1 st = Some st''" by auto
  from backtracking_restores_masks [of ?C 1 8 "[1, 7, 2, 8, 3, 9, 5, 0, 6]" st st' st''] 1 2 c
  show ?thesis by blast
qed

text \<open>
  The tests of the solver compare no digit sets: a candidate is placed when its digits
  are new in their columns and boxes. On the nine lists of one string each made of
  \<open>mixed_rows\<close> the solver accepts the grid whose middle row, second column and
  middle-left box hold 4 and not 8, while the other rows hold 8 and not 4. Each of these
  strings is a candidate of its row in the base puzzle of \<^verbatim>\<open>main\<close>; the lemma says nothing
  of the lists that the rounds of the divisor loop pass to the solver.
\<close>

lemma mixed_digit_sets_accepted:
  "map_option allSolutions
      (solveFixed (candidates_of (single_candidates mixed_rows)) 0 initial_state)
     = Some [map to_digits mixed_rows]
   \<and> set (map to_digits mixed_rows ! 4) = {0, 1, 2, 3, 4, 5, 6, 7, 9}
   \<and> set (map to_digits mixed_rows ! 0) = {0, 1, 2, 3, 5, 6, 7, 8, 9}
   \<and> set (grid_column (map to_digits mixed_rows) 1) = {0, 1, 2, 3, 4, 5, 6, 7, 9}
   \<and> set (grid_box (map to_digits mixed_rows) 3) = {0, 1, 2, 3, 4, 5, 6, 7, 9}
   \<and> (\<exists>validNumbers basePuzzle.
         generate main_requiredDigits ''1346789'' = Some validNumbers
         \<and> build_puzzle validNumbers = Some basePuzzle
         \<and> list_all (\<lambda>r. mixed_rows ! r \<in> set (basePuzzle ! r)) [0..<9])"
proof -
  have run: "map_option allSolutions
      (solveFixed (candidates_of (single_candidates mixed_rows)) 0 initial_state)
     = Some [map to_digits mixed_rows]
   \<and> set (map to_digits mixed_rows ! 4) = {0, 1, 2, 3, 4, 5, 6, 7, 9}
   \<and> set (map to_digits mixed_rows ! 0) = {0, 1, 2, 3, 5, 6, 7, 8, 9}
   \<and> set (grid_column (map to_digits mixed_rows) 1) = {0, 1, 2, 3, 4, 5, 6, 7, 9}
   \<and> set (grid_box (map to_digits mixed_rows) 3) = {0, 1, 2, 3, 4, 5, 6, 7, 9}"
    by code_simp
  have c: "completion_order main_requiredDigits ''1346789''"
    by (simp add: completion_order_def skipDigits_main)
  obtain validNumbers basePuzzle where b:
    "generate main_requiredDigits ''1346789'' = Some validNumbers"
    "build_puzzle validNumbers = Some basePuzzle"
    "list_all (\<lambda>r. solved_rows ! r \<in> set (basePuzzle ! r)
                      \<and> mixed_rows ! r \<in> set (basePuzzle ! r)) [0..<9]"
    using example_rows_in_base [OF c] by blast
  have "list_all (\<lambda>r. mixed_rows ! r \<in> set (basePuzzle ! r)) [0..<9]"
    using b(3) by (simp add: list_all_iff)
  then show ?thesis using run b(1,2) by blast
qed

section \<open>The divisor loop\<close>

text \<open>
  C8. For a divisor of the loop and base rows of digit strings, when the divisibility
  filter leaves some row empty the round does not run the solver (its outcome is
  \<open>Skipped\<close>, with zero solver invocations) and the loop goes on with the rest of the
  divisors and the same base rows.
\<close>

theorem empty_row_skips_divisor:
  assumes "candidateGCD \<in> set candidateGCDs"
    and "length basePuzzle = 9"
    and "\<forall>row\<in>set basePuzzle. \<forall>s\<in>set row. set s \<subseteq> set alphabet"
    and "\<exists>r<9. filterDivisibleByCandidate (basePuzzle ! r) candidateGCD = Some []"
  shows "try_divisor basePuzzle candidateGCD = Some Skipped
         \<and> solver_invocations Skipped = 0
         \<and> divisor_loop basePuzzle (candidateGCD # rest) = divisor_loop basePuzzle rest"
proof -
  have "filterDivisibleByCandidate (basePuzzle ! r) candidateGCD \<noteq> None" if "r < 9" for r
  proof -
    have "basePuzzle ! r \<in> set basePuzzle" using that assms(2) by simp
    then have "\<forall>s\<in>set (basePuzzle ! r). set s \<subseteq> set alphabet" using assms(3) by blast
    then show ?thesis by (rule divisor_defined [OF assms(1)])
  qed
  then have 1: "\<forall>r\<in>set [0..<9]. r < length basePuzzle
             \<and> filterDivisibleByCandidate (basePuzzle ! r) candidateGCD \<noteq> None"
    using assms(2) by simp
  have 2: "\<exists>r\<in>set [0..<9]. filterDivisibleByCandidate (basePuzzle ! r) candidateGCD = Some []"
    using assms(4) by auto
  obtain puzzle' where "filter_rows candidateGCD basePuzzle [0..<9] = Some (False, puzzle')"
    using filter_rows_empty [OF 1 _ 2] by auto
  then have "try_divisor basePuzzle candidateGCD = Some Skipped"
    by (simp add: try_divisor_def)
  then show ?thesis by simp
qed

theorem empty_row_skips_divisor_witness:
  "(12345677 :: int) \<in> set candidateGCDs
   \<and> length (single_candidates solved_rows) = 9
   \<and> filterDivisibleByCandidate (single_candidates solved_rows ! 0) 12345677 = Some []
   \<and> try_divisor (single_candidates solved_rows) 12345677 = Some Skipped
   \<and> divisor_loop (single_candidates solved_rows) [12345677, 12345673]
       = divisor_loop (single_candidates solved_rows) [12345673]"
proof -
  have m: "(12345677 :: int) \<in> set candidateGCDs" by (simp add: candidateGCDs_props(1))
  have e: "filterDivisibleByCandidate (single_candidates solved_rows ! 0) 12345677 = Some []"
    by (rule first_row_emptied [OF m]) simp
  then have ex: "\<exists>r<9. filterDivisibleByCandidate (single_candidates solved_rows ! r) 12345677 = Some []"
    by (intro exI [of _ 0]) simp
  have d: "\<forall>row\<in>set (single_candidates solved_rows). \<forall>s\<in>set row. set s \<subseteq> set alphabet"
    using rows_wellformed(2) by blast
  from empty_row_skips_divisor [OF m rows_wellformed(1) d ex, of "[12345673]"] m e
    rows_wellformed(1)
  show ?thesis by blast
qed

text \<open>
  C1. When the loop over \<open>candidateGCDs\<close> reports the divisor \<open>d\<close>, the round of \<open>d\<close> has
  solutions, the list of divisors is strictly decreasing, and no larger divisor of the
  range 337..12345678 with last digit 1, 3, 7 or 9 has a round with a non-empty solution
  set.
\<close>

theorem first_hit_is_maximum:
  assumes "divisor_loop basePuzzle candidateGCDs = Some (Some (d, sols))"
  shows "d \<in> set candidateGCDs \<and> yields_solutions basePuzzle d \<and> sols \<noteq> []
         \<and> sorted_wrt (\<lambda>a b. b < a) candidateGCDs
         \<and> (\<forall>d'. d < d' \<and> 337 \<le> d' \<and> d' \<le> 12345678 \<and> d' mod 10 \<in> {1, 3, 7, 9}
                \<longrightarrow> \<not> yields_solutions basePuzzle d')"
proof -
  obtain pre post where p: "candidateGCDs = pre @ d # post"
    "\<forall>g\<in>set pre. \<not> yields_solutions basePuzzle g" "yields_solutions basePuzzle d" "sols \<noteq> []"
    using divisor_loop_found [OF assms] by blast
  have s: "sorted_wrt (\<lambda>a b. b < a) (pre @ d # post)"
    using candidateGCDs_props(2) unfolding p(1) .
  have post: "\<forall>y\<in>set post. y < d" using s by (simp add: sorted_wrt_append)
  have "\<not> yields_solutions basePuzzle d'"
    if "d < d'" "337 \<le> d'" "d' \<le> 12345678" "d' mod 10 \<in> {1, 3, 7, 9}" for d'
  proof -
    have "d' \<in> set candidateGCDs" using that by (simp add: candidateGCDs_props(1))
    then have "d' \<in> set pre \<or> d' = d \<or> d' \<in> set post" by (auto simp: p(1))
    moreover have "d' \<noteq> d" "d' \<notin> set post" using that(1) post by auto
    ultimately have "d' \<in> set pre" by blast
    then show ?thesis using p(2) by simp
  qed
  moreover have "d \<in> set candidateGCDs" unfolding p(1) by simp
  ultimately show ?thesis using p(3,4) candidateGCDs_props(2) by blast
qed

theorem first_hit_is_maximum_witness:
  "\<exists>sols. divisor_loop (single_candidates solved_rows) candidateGCDs = Some (Some (333667, sols))
       \<and> sols \<noteq> []
       \<and> yields_solutions (single_candidates solved_rows) 333667
       \<and> \<not> yields_solutions (single_candidates solved_rows) 12345677
       \<and> \<not> yields_solutions (single_candidates solved_rows) 333669"
proof -
  let ?P = "single_candidates solved_rows"
  have m: "(333667 :: int) \<in> set candidateGCDs" by (simp add: candidateGCDs_props(1))
  obtain post where split:
    "candidateGCDs = filter (\<lambda>g. 333667 < g) candidateGCDs @ 333667 # post"
    using decreasing_split [OF candidateGCDs_props(2) m] by blast
  have "\<forall>g\<in>set (filter (\<lambda>g. 333667 < g) candidateGCDs). try_divisor ?P g = Some Skipped"
    using solved_skipped by simp
  then have "divisor_loop ?P (filter (\<lambda>g. 333667 < g) candidateGCDs @ 333667 # post)
      = divisor_loop ?P (333667 # post)"
    by (rule divisor_loop_skip)
  then have 1: "divisor_loop ?P candidateGCDs = divisor_loop ?P (333667 # post)"
    using split by simp
  obtain st where st: "try_divisor ?P 333667 = Some (Solved st)" "allSolutions st \<noteq> []"
    using solved_found by blast
  have 2: "divisor_loop ?P candidateGCDs = Some (Some (333667, allSolutions st))"
    using 1 st by simp
  from first_hit_is_maximum [OF 2] 2 show ?thesis by auto
qed


end
